theory Spec2Isabelle
  imports Main
begin

section \<open>Runes, strings and the Go library functions the scanner calls\<close>

text \<open>
  A rune is modelled by an 8-bit \<open>char\<close> read as the code point of the same number, so the
  inputs covered are the character sequences over U+0000..U+00FF.  A Go string is the list
  of its runes.  The functions of the packages \<open>unicode\<close> and \<open>strings\<close> that the source
  calls are written out for this range from Go's Latin-1 tables.
\<close>

type_synonym rune = char

definition unicode_IsLetter :: "rune \<Rightarrow> bool" where
  "unicode_IsLetter r =
     (let n = (of_char r :: nat) in
        (65 \<le> n \<and> n \<le> 90) \<or> (97 \<le> n \<and> n \<le> 122) \<or> n = 170 \<or> n = 181 \<or> n = 186 \<or>
        (192 \<le> n \<and> n \<le> 214) \<or> (216 \<le> n \<and> n \<le> 246) \<or> (248 \<le> n \<and> n \<le> 255))"

definition unicode_IsDigit :: "rune \<Rightarrow> bool" where
  "unicode_IsDigit r = (let n = (of_char r :: nat) in 48 \<le> n \<and> n \<le> 57)"

definition unicode_IsSpace :: "rune \<Rightarrow> bool" where
  "unicode_IsSpace r =
     (let n = (of_char r :: nat) in
        n = 9 \<or> n = 10 \<or> n = 11 \<or> n = 12 \<or> n = 13 \<or> n = 32 \<or> n = 133 \<or> n = 160)"

definition unicode_ToLower :: "rune \<Rightarrow> rune" where
  "unicode_ToLower r =
     (let n = (of_char r :: nat) in
        if (65 \<le> n \<and> n \<le> 90) \<or> (192 \<le> n \<and> n \<le> 214) \<or> (216 \<le> n \<and> n \<le> 222)
        then char_of (n + 32) else r)"

definition strings_ToLower :: "string \<Rightarrow> string" where
  "strings_ToLower s = map unicode_ToLower s"

definition strings_TrimSpace :: "string \<Rightarrow> string" where
  "strings_TrimSpace s = rev (dropWhile unicode_IsSpace (rev (dropWhile unicode_IsSpace s)))"

text \<open>The characters the scanner switches on.\<close>

definition quote_r :: rune where "quote_r = CHR 0x22"
definition backslash_r :: rune where "backslash_r = CHR 0x5C"
definition newline_r :: rune where "newline_r = CHR 0x0A"
definition zero_r :: rune where "zero_r = CHR 0x00"

section \<open>The character reader (package scan, Reader)\<close>

datatype charStatus = charErr | charEOF | charOk

text \<open>The struct \<open>char\<close>; its field \<open>size\<close> is never read by the scanner and is left out.\<close>

datatype char_t = Char (t: charStatus) (val: rune)

text \<open>
  The \<open>Reader\<close> wraps a \<open>bufio.Reader\<close>: \<open>pending\<close> is what the underlying stream still
  holds, \<open>fails\<close> says whether the stream ends with a read error instead of io.EOF, and
  \<open>lastRune\<close> is bufio's memory of the rune that \<open>UnreadRune\<close> may push back (it is only there
  when the most recent operation was a successful \<open>ReadRune\<close>).  The field \<open>pos\<close> is write-only
  and left out.
\<close>

record Reader =
  pending :: "rune list"
  fails :: bool
  lastRune :: "rune option"

definition NewReader :: "rune list \<Rightarrow> bool \<Rightarrow> Reader" where
  "NewReader inp f = \<lparr>pending = inp, fails = f, lastRune = None\<rparr>"

definition Reader_Next :: "Reader \<Rightarrow> char_t \<times> Reader" where
  "Reader_Next r =
     (case pending r of
        [] \<Rightarrow> (Char (if fails r then charErr else charEOF) zero_r, r\<lparr>lastRune := None\<rparr>)
      | c # cs \<Rightarrow> (Char charOk c, r\<lparr>pending := cs, lastRune := Some c\<rparr>))"

definition Reader_Revert :: "Reader \<Rightarrow> Reader" where
  "Reader_Revert r =
     (case lastRune r of
        None \<Rightarrow> r
      | Some c \<Rightarrow> r\<lparr>pending := c # pending r, lastRune := None\<rparr>)"

section \<open>The scanner (package scan, Scanner)\<close>

datatype ItemType =
    ItemErr | ItemEOF | ItemEntryDelim | ItemLeftBrace | ItemRightBrace | ItemLeftDelim
  | ItemRightDelim | ItemLeftParen | ItemRightParen | ItemEqSgn | ItemComma | ItemCiteKey
  | ItemEntry | ItemComment | ItemAbbrev | ItemPreamble | ItemFieldType | ItemFieldText
  | ItemTexCode

datatype state =
    null_s | entryDelim | topLvlComment | entryComment | entryType | entryLeftBodyDelim
  | entryCiteKey | entryComma | entryFieldType | entryRightBodyDelim | entryEqSgn
  | entryFieldText | entryTypeOrBrace | eof | err

datatype entryT = entry | preamble | abbrev

datatype Item = Item (T: ItemType) (Val: string)

text \<open>
  The channel \<open>items\<close> is the list of the items sent and not yet received.  \<open>Next\<close> runs a
  state handler only when the channel is empty and a handler sends at most one item, so the
  buffer of two never fills and a send never blocks.  \<open>bracers\<close> is a Go \<open>int\<close>; it is only
  stepped by one per character read, so the 64-bit range is never left and it is an \<open>int\<close> here.
\<close>

record Scanner =
  reader :: Reader
  items :: "Item list"
  state :: state
  bracers :: int
  entryT :: entryT
  delim :: rune

definition NewScanner :: "Reader \<Rightarrow> Scanner" where
  "NewScanner r = \<lparr>reader = r, items = [], state = null_s, bracers = 0, entryT = entry,
     delim = zero_r\<rparr>"

definition checkErr :: "char_t \<Rightarrow> state" where
  "checkErr c = (if t c = charErr then err else if t c = charEOF then eof else null_s)"

definition send :: "Item \<Rightarrow> Scanner \<Rightarrow> Scanner" where
  "send i s = s\<lparr>items := items s @ [i]\<rparr>"

definition revert :: "Scanner \<Rightarrow> Scanner" where
  "revert s = s\<lparr>reader := Reader_Revert (reader s)\<rparr>"

subsection \<open>Validation helpers\<close>

definition IsSpecial :: "rune \<Rightarrow> bool" where
  "IsSpecial r = (r \<in> set ''_-/!?$&*+.:;<>[]^`|'')"

definition IsValidNameRune :: "rune \<Rightarrow> bool" where
  "IsValidNameRune r =
     (if \<not> unicode_IsLetter r \<and> \<not> unicode_IsDigit r \<and> \<not> IsSpecial r then False else True)"

definition IsValidName :: "string \<Rightarrow> bool" where
  "IsValidName s = (if s = [] then False else list_all IsValidNameRune s)"

definition isDelim :: "rune \<Rightarrow> bool" where
  "isDelim r = (r \<in> set ''{}()'')"

definition isValidInt :: "string \<Rightarrow> bool" where
  "isValidInt s = (if s = [] then False else list_all unicode_IsDigit s)"

definition isLetter :: "string \<Rightarrow> bool" where
  "isLetter s = (if s = [] then False else list_all unicode_IsLetter s)"

text \<open>
  The loop of \<open>isProperQuoted\<close> over the runes of the string: a backslash skips the rune after
  it (\<open>i++\<close> on top of the loop's own), so the recursion drops one more element.
\<close>

fun isProperQuoted_loop :: "int \<Rightarrow> int \<Rightarrow> rune list \<Rightarrow> int \<times> int" where
  "isProperQuoted_loop braces quotes [] = (braces, quotes)"
| "isProperQuoted_loop braces quotes (c # cs) =
     (if c = backslash_r then isProperQuoted_loop braces quotes (tl cs)
      else if c = CHR ''{'' then isProperQuoted_loop (braces + 1) quotes cs
      else if c = CHR ''}'' \<and> braces > 0 then isProperQuoted_loop (braces - 1) quotes cs
      else if c = quote_r then isProperQuoted_loop braces (quotes + 1) cs
      else isProperQuoted_loop braces quotes cs)"

definition isProperQuoted :: "string \<Rightarrow> bool" where
  "isProperQuoted s =
     (if s = [] then False
      else (case isProperQuoted_loop 0 0 s of
              (braces, quotes) \<Rightarrow> if braces \<noteq> 0 \<or> quotes mod 2 \<noteq> 0 then False else True))"

text \<open>The map \<open>delims\<close> and \<open>delimsMatch\<close>.\<close>

definition delims :: "rune \<Rightarrow> rune option" where
  "delims = [CHR ''{'' \<mapsto> CHR ''}'', CHR ''}'' \<mapsto> CHR ''{'', CHR ''('' \<mapsto> CHR '')'',
     CHR '')'' \<mapsto> CHR ''('']"

definition delimsMatch :: "rune \<Rightarrow> rune \<Rightarrow> bool" where
  "delimsMatch i j =
     (case delims i of None \<Rightarrow> False | Some other \<Rightarrow> if j \<noteq> other then False else True)"

subsection \<open>State handlers\<close>

text \<open>
  A handler takes the scanner and returns the next state together with the scanner as it has
  left it (reader advanced, items sent, counters changed).  Every \<open>for\<close> loop of the source
  is a recursive function over the reader; a deferred \<open>Revert\<close> is run where the handler
  returns.
\<close>

definition Scanner_null :: "Scanner \<Rightarrow> state \<times> Scanner" where
  "Scanner_null s = (topLvlComment, s)"

function Scanner_topLvlComment_loop :: "string \<Rightarrow> Scanner \<Rightarrow> state \<times> Scanner" where
  "Scanner_topLvlComment_loop buf s =
     (case Reader_Next (reader s) of (c, r) \<Rightarrow>
        if checkErr c \<noteq> null_s then (checkErr c, s\<lparr>reader := r\<rparr>)
        else if val c = CHR ''@'' then
          (if strings_TrimSpace buf \<noteq> []
           then (entryDelim, revert (send (Item ItemComment (strings_TrimSpace buf)) (s\<lparr>reader := r\<rparr>)))
           else (entryDelim, revert (s\<lparr>reader := r\<rparr>)))
        else Scanner_topLvlComment_loop (buf @ [val c]) (s\<lparr>reader := r\<rparr>))"
  by pat_completeness auto
termination
  by (relation "measure (\<lambda>(buf, s). length (pending (reader s)))")
     (auto simp: Reader_Next_def checkErr_def split: list.splits if_splits)

definition Scanner_topLvlComment :: "Scanner \<Rightarrow> state \<times> Scanner" where
  "Scanner_topLvlComment s = Scanner_topLvlComment_loop [] s"

function Scanner_entryDelim :: "Scanner \<Rightarrow> state \<times> Scanner" where
  "Scanner_entryDelim s =
     (case Reader_Next (reader s) of (c, r) \<Rightarrow>
        if checkErr c \<noteq> null_s then (checkErr c, s\<lparr>reader := r\<rparr>)
        else if val c = CHR ''@'' then
          (entryType, send (Item ItemEntryDelim [val c]) (s\<lparr>reader := r\<rparr>))
        else Scanner_entryDelim (s\<lparr>reader := r\<rparr>))"
  by pat_completeness auto
termination
  by (relation "measure (\<lambda>s. length (pending (reader s)))")
     (auto simp: Reader_Next_def checkErr_def split: list.splits if_splits)

function Scanner_entryType_loop :: "string \<Rightarrow> Scanner \<Rightarrow> state \<times> Scanner" where
  "Scanner_entryType_loop buf s =
     (case Reader_Next (reader s) of (c, r) \<Rightarrow>
        if checkErr c \<noteq> null_s then (checkErr c, s\<lparr>reader := r\<rparr>)
        else if val c = CHR ''{'' \<or> val c = CHR ''('' then
          (let b = strings_TrimSpace buf;
               lower = strings_ToLower b;
               (et, ty) = (if lower = ''preamble'' then (preamble, ItemPreamble)
                           else if lower = ''string'' then (abbrev, ItemAbbrev)
                           else (entry, ItemEntry));
               s1 = s\<lparr>reader := r, entryT := et\<rparr>
           in if \<not> IsValidName b then (err, s1)
              else (entryLeftBodyDelim, revert (send (Item ty b) s1)))
        else Scanner_entryType_loop (buf @ [val c]) (s\<lparr>reader := r\<rparr>))"
  by pat_completeness auto
termination
  by (relation "measure (\<lambda>(buf, s). length (pending (reader s)))")
     (auto simp: Reader_Next_def checkErr_def split: list.splits if_splits)

definition Scanner_entryType :: "Scanner \<Rightarrow> state \<times> Scanner" where
  "Scanner_entryType s = Scanner_entryType_loop [] s"

function Scanner_leftBodyDelim :: "Scanner \<Rightarrow> state \<times> Scanner" where
  "Scanner_leftBodyDelim s =
     (case Reader_Next (reader s) of (c, r) \<Rightarrow>
        if checkErr c \<noteq> null_s then (checkErr c, s\<lparr>reader := r\<rparr>)
        else if val c = CHR ''{'' \<or> val c = CHR ''('' then
          (let s1 = (send (Item ItemLeftDelim [val c]) (s\<lparr>reader := r\<rparr>))
                      \<lparr>delim := val c, bracers := bracers s + 1\<rparr>
           in (case entryT s1 of
                 entry \<Rightarrow> (entryCiteKey, s1)
               | preamble \<Rightarrow> (entryFieldText, s1)
               | abbrev \<Rightarrow> (entryFieldType, s1)))
        else Scanner_leftBodyDelim (s\<lparr>reader := r\<rparr>))"
  by pat_completeness auto
termination
  by (relation "measure (\<lambda>s. length (pending (reader s)))")
     (auto simp: Reader_Next_def checkErr_def split: list.splits if_splits)

function Scanner_rightBodyDelim :: "Scanner \<Rightarrow> state \<times> Scanner" where
  "Scanner_rightBodyDelim s =
     (case Reader_Next (reader s) of (c, r) \<Rightarrow>
        if checkErr c \<noteq> null_s then (checkErr c, s\<lparr>reader := r\<rparr>)
        else if val c = CHR ''}'' \<or> val c = CHR '')'' then
          (if \<not> delimsMatch (delim s) (val c) then (err, s\<lparr>reader := r\<rparr>)
           else (null_s, (send (Item ItemRightDelim [val c]) (s\<lparr>reader := r\<rparr>))
                           \<lparr>bracers := bracers s - 1\<rparr>))
        else Scanner_rightBodyDelim (s\<lparr>reader := r\<rparr>))"
  by pat_completeness auto
termination
  by (relation "measure (\<lambda>s. length (pending (reader s)))")
     (auto simp: Reader_Next_def checkErr_def split: list.splits if_splits)

function Scanner_citeKey_loop :: "string \<Rightarrow> Scanner \<Rightarrow> state \<times> Scanner" where
  "Scanner_citeKey_loop buf s =
     (case Reader_Next (reader s) of (c, r) \<Rightarrow>
        if checkErr c \<noteq> null_s then (checkErr c, s\<lparr>reader := r\<rparr>)
        else if val c = CHR '','' then
          (if \<not> IsValidName (strings_TrimSpace buf) then (err, s\<lparr>reader := r\<rparr>)
           else (entryComma,
                 revert (send (Item ItemCiteKey (strings_TrimSpace buf)) (s\<lparr>reader := r\<rparr>))))
        else Scanner_citeKey_loop (buf @ [val c]) (s\<lparr>reader := r\<rparr>))"
  by pat_completeness auto
termination
  by (relation "measure (\<lambda>(buf, s). length (pending (reader s)))")
     (auto simp: Reader_Next_def checkErr_def split: list.splits if_splits)

definition Scanner_citeKey :: "Scanner \<Rightarrow> state \<times> Scanner" where
  "Scanner_citeKey s = Scanner_citeKey_loop [] s"

function Scanner_entryComma :: "Scanner \<Rightarrow> state \<times> Scanner" where
  "Scanner_entryComma s =
     (case Reader_Next (reader s) of (c, r) \<Rightarrow>
        if checkErr c \<noteq> null_s then (checkErr c, s\<lparr>reader := r\<rparr>)
        else if val c = CHR '','' then
          (entryTypeOrBrace, send (Item ItemComma [val c]) (s\<lparr>reader := r\<rparr>))
        else Scanner_entryComma (s\<lparr>reader := r\<rparr>))"
  by pat_completeness auto
termination
  by (relation "measure (\<lambda>s. length (pending (reader s)))")
     (auto simp: Reader_Next_def checkErr_def split: list.splits if_splits)

text \<open>The second loop of \<open>entryComment\<close>, after the label \<open>cont\<close>.\<close>

function Scanner_entryComment_cont :: "Scanner \<Rightarrow> state \<times> Scanner" where
  "Scanner_entryComment_cont s =
     (case Reader_Next (reader s) of (c, r) \<Rightarrow>
        if checkErr c \<noteq> null_s then (checkErr c, s\<lparr>reader := r\<rparr>)
        else if val c = CHR ''%'' then (entryComment, s\<lparr>reader := r\<rparr>)
        else if isDelim (val c) then (entryRightBodyDelim, revert (s\<lparr>reader := r\<rparr>))
        else if IsValidNameRune (val c) then (entryFieldType, revert (s\<lparr>reader := r\<rparr>))
        else Scanner_entryComment_cont (s\<lparr>reader := r\<rparr>))"
  by pat_completeness auto
termination
  by (relation "measure (\<lambda>s. length (pending (reader s)))")
     (auto simp: Reader_Next_def checkErr_def split: list.splits if_splits)

function Scanner_entryComment_loop :: "string \<Rightarrow> Scanner \<Rightarrow> state \<times> Scanner" where
  "Scanner_entryComment_loop buf s =
     (case Reader_Next (reader s) of (c, r) \<Rightarrow>
        if checkErr c \<noteq> null_s then (checkErr c, s\<lparr>reader := r\<rparr>)
        else if val c = newline_r then
          (if strings_TrimSpace buf \<noteq> []
           then Scanner_entryComment_cont
                  (send (Item ItemComment (strings_TrimSpace buf)) (s\<lparr>reader := r\<rparr>))
           else Scanner_entryComment_cont (s\<lparr>reader := r\<rparr>))
        else Scanner_entryComment_loop (buf @ [val c]) (s\<lparr>reader := r\<rparr>))"
  by pat_completeness auto
termination
  by (relation "measure (\<lambda>(buf, s). length (pending (reader s)))")
     (auto simp: Reader_Next_def checkErr_def split: list.splits if_splits)

definition Scanner_entryComment :: "Scanner \<Rightarrow> state \<times> Scanner" where
  "Scanner_entryComment s = Scanner_entryComment_loop [] s"

function Scanner_entryTypeOrBrace :: "Scanner \<Rightarrow> state \<times> Scanner" where
  "Scanner_entryTypeOrBrace s =
     (case Reader_Next (reader s) of (c, r) \<Rightarrow>
        if checkErr c \<noteq> null_s then (checkErr c, s\<lparr>reader := r\<rparr>)
        else if val c = CHR ''}'' \<or> val c = CHR '')'' then
          (entryRightBodyDelim, revert (s\<lparr>reader := r\<rparr>))
        else if val c = CHR ''%'' then (entryComment, s\<lparr>reader := r\<rparr>)
        else if IsValidNameRune (val c) then (entryFieldType, revert (s\<lparr>reader := r\<rparr>))
        else Scanner_entryTypeOrBrace (s\<lparr>reader := r\<rparr>))"
  by pat_completeness auto
termination
  by (relation "measure (\<lambda>s. length (pending (reader s)))")
     (auto simp: Reader_Next_def checkErr_def split: list.splits if_splits)

function Scanner_entryFieldType_loop :: "string \<Rightarrow> Scanner \<Rightarrow> state \<times> Scanner" where
  "Scanner_entryFieldType_loop buf s =
     (case Reader_Next (reader s) of (c, r) \<Rightarrow>
        if checkErr c \<noteq> null_s then (checkErr c, s\<lparr>reader := r\<rparr>)
        else if val c = CHR ''='' then
          (if \<not> IsValidName (strings_TrimSpace buf) then (err, s\<lparr>reader := r\<rparr>)
           else (entryEqSgn,
                 revert (send (Item ItemFieldType (strings_TrimSpace buf)) (s\<lparr>reader := r\<rparr>))))
        else Scanner_entryFieldType_loop (buf @ [val c]) (s\<lparr>reader := r\<rparr>))"
  by pat_completeness auto
termination
  by (relation "measure (\<lambda>(buf, s). length (pending (reader s)))")
     (auto simp: Reader_Next_def checkErr_def split: list.splits if_splits)

definition Scanner_entryFieldType :: "Scanner \<Rightarrow> state \<times> Scanner" where
  "Scanner_entryFieldType s = Scanner_entryFieldType_loop [] s"

function Scanner_entryEqSgn :: "Scanner \<Rightarrow> state \<times> Scanner" where
  "Scanner_entryEqSgn s =
     (case Reader_Next (reader s) of (c, r) \<Rightarrow>
        if checkErr c \<noteq> null_s then (checkErr c, s\<lparr>reader := r\<rparr>)
        else if val c = CHR ''='' then
          (entryFieldText, send (Item ItemEqSgn [val c]) (s\<lparr>reader := r\<rparr>))
        else Scanner_entryEqSgn (s\<lparr>reader := r\<rparr>))"
  by pat_completeness auto
termination
  by (relation "measure (\<lambda>s. length (pending (reader s)))")
     (auto simp: Reader_Next_def checkErr_def split: list.splits if_splits)

text \<open>
  The three terminating cases of \<open>entryFieldText\<close> trim and check the buffer the same way;
  \<open>fieldTextOk\<close> is that nested test (the buffer passes when it is an integer or properly
  quoted).
\<close>

definition fieldTextOk :: "string \<Rightarrow> bool" where
  "fieldTextOk b = (if \<not> isValidInt b then (if \<not> isProperQuoted b then False else True) else True)"

function Scanner_entryFieldText_loop ::
  "string \<Rightarrow> nat \<Rightarrow> rune \<Rightarrow> Scanner \<Rightarrow> state \<times> Scanner" where
  "Scanner_entryFieldText_loop buf quotes prev s =
     (case Reader_Next (reader s) of (ch, r) \<Rightarrow>
        if checkErr ch \<noteq> null_s then (checkErr ch, s\<lparr>reader := r\<rparr>)
        else (let c = val ch; s1 = s\<lparr>reader := r\<rparr> in
          if c = CHR ''{'' then
            Scanner_entryFieldText_loop (buf @ [c]) quotes c (s1\<lparr>bracers := bracers s1 + 1\<rparr>)
          else if c = quote_r then
            Scanner_entryFieldText_loop (buf @ [c])
              (if prev \<noteq> backslash_r then quotes + 1 else quotes) c s1
          else if (c = CHR ''}'' \<or> c = CHR '')'') \<and> bracers s1 = 1 then
            (if \<not> fieldTextOk (strings_TrimSpace buf) then (err, s1)
             else (entryRightBodyDelim,
                   revert (send (Item ItemFieldText (strings_TrimSpace buf)) s1)))
          else if c = CHR ''%'' \<and> bracers s1 = 1 then
            (if \<not> fieldTextOk (strings_TrimSpace buf) then (err, s1)
             else (entryComment, send (Item ItemFieldText (strings_TrimSpace buf)) s1))
          else if c = CHR ''}'' \<and> bracers s1 > 0 then
            Scanner_entryFieldText_loop (buf @ [c]) quotes c (s1\<lparr>bracers := bracers s1 - 1\<rparr>)
          else if c = CHR '','' \<and> quotes mod 2 = 0 \<and> bracers s1 = 1 then
            (if \<not> fieldTextOk (strings_TrimSpace buf) then (err, s1)
             else (entryComma,
                   revert (send (Item ItemFieldText (strings_TrimSpace buf)) s1)))
          else Scanner_entryFieldText_loop (buf @ [c]) quotes c s1))"
  by pat_completeness auto
termination
  by (relation "measure (\<lambda>(buf, quotes, prev, s). length (pending (reader s)))")
     (auto simp: Reader_Next_def checkErr_def split: list.splits if_splits)

definition Scanner_entryFieldText :: "Scanner \<Rightarrow> state \<times> Scanner" where
  "Scanner_entryFieldText s = Scanner_entryFieldText_loop [] 0 zero_r s"

definition Scanner_eof :: "Scanner \<Rightarrow> state \<times> Scanner" where
  "Scanner_eof s = (eof, send (Item ItemEOF []) s)"

definition Scanner_err :: "Scanner \<Rightarrow> state \<times> Scanner" where
  "Scanner_err s = (err, send (Item ItemErr []) s)"

text \<open>The table \<open>states\<close> built by \<open>NewScanner\<close>.\<close>

fun states :: "state \<Rightarrow> Scanner \<Rightarrow> state \<times> Scanner" where
  "states null_s = Scanner_null"
| "states topLvlComment = Scanner_topLvlComment"
| "states entryComment = Scanner_entryComment"
| "states entryDelim = Scanner_entryDelim"
| "states entryType = Scanner_entryType"
| "states entryLeftBodyDelim = Scanner_leftBodyDelim"
| "states entryRightBodyDelim = Scanner_rightBodyDelim"
| "states entryCiteKey = Scanner_citeKey"
| "states entryComma = Scanner_entryComma"
| "states entryFieldType = Scanner_entryFieldType"
| "states entryEqSgn = Scanner_entryEqSgn"
| "states entryFieldText = Scanner_entryFieldText"
| "states entryTypeOrBrace = Scanner_entryTypeOrBrace"
| "states eof = Scanner_eof"
| "states err = Scanner_err"

text \<open>One turn of the \<open>default\<close> branch of \<open>Next\<close>: \<open>s.state = s.states[s.state](s)\<close>.\<close>

definition Scanner_step :: "Scanner \<Rightarrow> Scanner" where
  "Scanner_step s = (case states (state s) s of (st, s') \<Rightarrow> s'\<lparr>state := st\<rparr>)"

text \<open>The loop equations are unfolded by hand in the proofs.\<close>

declare Scanner_topLvlComment_loop.simps [simp del] Scanner_entryDelim.simps [simp del]
  Scanner_entryType_loop.simps [simp del] Scanner_leftBodyDelim.simps [simp del]
  Scanner_rightBodyDelim.simps [simp del] Scanner_citeKey_loop.simps [simp del]
  Scanner_entryComma.simps [simp del] Scanner_entryComment_cont.simps [simp del]
  Scanner_entryComment_loop.simps [simp del] Scanner_entryTypeOrBrace.simps [simp del]
  Scanner_entryFieldType_loop.simps [simp del] Scanner_entryEqSgn.simps [simp del]
  Scanner_entryFieldText_loop.simps [simp del]

subsection \<open>Every handler makes progress\<close>

text \<open>
  \<open>plen\<close> is the number of characters the reader still holds.  A handler that sends an item
  has consumed at least one character for it, and a handler that sends nothing either
  consumes or moves to a state of lower \<open>rank\<close>; this is what makes \<open>Next\<close> return.
\<close>

definition plen :: "Scanner \<Rightarrow> nat" where
  "plen s = length (pending (reader s))"

fun rank :: "state \<Rightarrow> nat" where
  "rank null_s = 3"
| "rank topLvlComment = 2"
| "rank entryTypeOrBrace = 2"
| "rank eof = 0"
| "rank err = 0"
| "rank _ = 1"

definition progress :: "Scanner \<Rightarrow> state \<times> Scanner \<Rightarrow> bool" where
  "progress s res =
     (case res of (st, s') \<Rightarrow>
        (items s' = items s \<and> plen s' \<le> plen s \<and>
           4 * plen s' + rank st < 4 * plen s + rank (state s)) \<or>
        (\<exists>i. items s' = items s @ [i] \<and> plen s' \<le> plen s \<and>
           (T i = ItemErr \<or> T i = ItemEOF \<or> plen s' < plen s)))"

lemma rank_le: "rank st \<le> 3"
  by (cases st) auto

lemma Reader_Next_cases:
  obtains (stop) c r where "Reader_Next rd = (c, r)" "checkErr c \<noteq> null_s"
      "checkErr c = eof \<or> checkErr c = err" "pending r = []" "pending rd = []"
  | (ok) x xs r where "Reader_Next rd = (Char charOk x, r)" "pending rd = x # xs"
      "pending r = xs" "lastRune r = Some x"
  by (cases "pending rd") (auto simp: Reader_Next_def checkErr_def)

lemma checkErr_ok [simp]: "checkErr (Char charOk x) = null_s"
  by (simp add: checkErr_def)

lemma TrimSpace_length: "length (strings_TrimSpace b) \<le> length b"
  unfolding strings_TrimSpace_def
  by (metis length_dropWhile_le length_rev order_trans)

lemma TrimSpace_pos: "strings_TrimSpace b \<noteq> [] \<Longrightarrow> 0 < length b"
  using TrimSpace_length[of b] by (cases b) auto

lemma IsValidName_nonempty: "IsValidName b \<Longrightarrow> b \<noteq> []"
  by (auto simp: IsValidName_def)

lemma IsValidName_Trim_pos: "IsValidName (strings_TrimSpace b) \<Longrightarrow> 0 < length b"
  by (rule TrimSpace_pos) (rule IsValidName_nonempty)

lemma fieldTextOk_nonempty: "fieldTextOk b \<Longrightarrow> b \<noteq> []"
  by (auto simp: fieldTextOk_def isValidInt_def isProperQuoted_def)

lemma fieldTextOk_Trim_pos: "fieldTextOk (strings_TrimSpace b) \<Longrightarrow> 0 < length b"
  by (rule TrimSpace_pos) (rule fieldTextOk_nonempty)

lemmas handler_defs = plen_def revert_def send_def Reader_Revert_def

lemma topLvlComment_loop_progress:
  "Scanner_topLvlComment_loop buf s = (st, s') \<Longrightarrow>
     (items s' = items s \<and> plen s' \<le> plen s \<and> (st = eof \<or> st = err \<or> st = entryDelim)) \<or>
     (\<exists>i. items s' = items s @ [i] \<and> plen s' < plen s + length buf)"
proof (induction buf s rule: Scanner_topLvlComment_loop.induct)
  case (1 buf s)
  show ?case
  proof (cases "reader s" rule: Reader_Next_cases)
    case (stop c r)
    with "1.prems" show ?thesis
      by (auto simp: Scanner_topLvlComment_loop.simps[of buf s] plen_def)
  next
    case (ok x xs r)
    with "1.prems" "1.IH"[of "Char charOk x" r] show ?thesis
      using TrimSpace_pos[of buf]
      by (auto simp: Scanner_topLvlComment_loop.simps[of buf s] handler_defs split: if_splits)
  qed
qed

lemma entryDelim_progress:
  "Scanner_entryDelim s = (st, s') \<Longrightarrow>
     (items s' = items s \<and> plen s' \<le> plen s \<and> (st = eof \<or> st = err)) \<or>
     (\<exists>i. items s' = items s @ [i] \<and> plen s' < plen s)"
proof (induction s rule: Scanner_entryDelim.induct)
  case (1 s)
  show ?case
  proof (cases "reader s" rule: Reader_Next_cases)
    case (stop c r)
    with "1.prems" show ?thesis
      by (auto simp: Scanner_entryDelim.simps[of s] plen_def)
  next
    case (ok x xs r)
    with "1.prems" "1.IH"[of "Char charOk x" r] show ?thesis
      by (auto simp: Scanner_entryDelim.simps[of s] handler_defs split: if_splits)
  qed
qed

lemma entryType_loop_progress:
  "Scanner_entryType_loop buf s = (st, s') \<Longrightarrow>
     (items s' = items s \<and> plen s' \<le> plen s \<and> (st = eof \<or> st = err)) \<or>
     (\<exists>i. items s' = items s @ [i] \<and> plen s' < plen s + length buf)"
proof (induction buf s rule: Scanner_entryType_loop.induct)
  case (1 buf s)
  show ?case
  proof (cases "reader s" rule: Reader_Next_cases)
    case (stop c r)
    with "1.prems" show ?thesis
      by (auto simp: Scanner_entryType_loop.simps[of buf s] plen_def)
  next
    case (ok x xs r)
    with "1.prems" "1.IH"[of "Char charOk x" r] show ?thesis
      using IsValidName_Trim_pos[of buf]
      by (auto simp: Scanner_entryType_loop.simps[of buf s] handler_defs Let_def
               split: if_splits)
  qed
qed

lemma leftBodyDelim_progress:
  "Scanner_leftBodyDelim s = (st, s') \<Longrightarrow>
     (items s' = items s \<and> plen s' \<le> plen s \<and> (st = eof \<or> st = err)) \<or>
     (\<exists>i. items s' = items s @ [i] \<and> plen s' < plen s)"
proof (induction s rule: Scanner_leftBodyDelim.induct)
  case (1 s)
  show ?case
  proof (cases "reader s" rule: Reader_Next_cases)
    case (stop c r)
    with "1.prems" show ?thesis
      by (auto simp: Scanner_leftBodyDelim.simps[of s] plen_def)
  next
    case (ok x xs r)
    with "1.prems" "1.IH"[of "Char charOk x" r] show ?thesis
      by (auto simp: Scanner_leftBodyDelim.simps[of s] handler_defs Let_def
               split: if_splits entryT.splits)
  qed
qed

lemma rightBodyDelim_progress:
  "Scanner_rightBodyDelim s = (st, s') \<Longrightarrow>
     (items s' = items s \<and> plen s' \<le> plen s \<and> (st = eof \<or> st = err)) \<or>
     (\<exists>i. items s' = items s @ [i] \<and> plen s' < plen s)"
proof (induction s rule: Scanner_rightBodyDelim.induct)
  case (1 s)
  show ?case
  proof (cases "reader s" rule: Reader_Next_cases)
    case (stop c r)
    with "1.prems" show ?thesis
      by (auto simp: Scanner_rightBodyDelim.simps[of s] plen_def)
  next
    case (ok x xs r)
    with "1.prems" "1.IH"[of "Char charOk x" r] show ?thesis
      by (auto simp: Scanner_rightBodyDelim.simps[of s] handler_defs split: if_splits)
  qed
qed

lemma citeKey_loop_progress:
  "Scanner_citeKey_loop buf s = (st, s') \<Longrightarrow>
     (items s' = items s \<and> plen s' \<le> plen s \<and> (st = eof \<or> st = err)) \<or>
     (\<exists>i. items s' = items s @ [i] \<and> plen s' < plen s + length buf)"
proof (induction buf s rule: Scanner_citeKey_loop.induct)
  case (1 buf s)
  show ?case
  proof (cases "reader s" rule: Reader_Next_cases)
    case (stop c r)
    with "1.prems" show ?thesis
      by (auto simp: Scanner_citeKey_loop.simps[of buf s] plen_def)
  next
    case (ok x xs r)
    with "1.prems" "1.IH"[of "Char charOk x" r] show ?thesis
      using IsValidName_Trim_pos[of buf]
      by (auto simp: Scanner_citeKey_loop.simps[of buf s] handler_defs split: if_splits)
  qed
qed

lemma entryComma_progress:
  "Scanner_entryComma s = (st, s') \<Longrightarrow>
     (items s' = items s \<and> plen s' \<le> plen s \<and> (st = eof \<or> st = err)) \<or>
     (\<exists>i. items s' = items s @ [i] \<and> plen s' < plen s)"
proof (induction s rule: Scanner_entryComma.induct)
  case (1 s)
  show ?case
  proof (cases "reader s" rule: Reader_Next_cases)
    case (stop c r)
    with "1.prems" show ?thesis
      by (auto simp: Scanner_entryComma.simps[of s] plen_def)
  next
    case (ok x xs r)
    with "1.prems" "1.IH"[of "Char charOk x" r] show ?thesis
      by (auto simp: Scanner_entryComma.simps[of s] handler_defs split: if_splits)
  qed
qed

lemma entryComment_cont_progress:
  "Scanner_entryComment_cont s = (st, s') \<Longrightarrow> items s' = items s \<and> plen s' \<le> plen s"
proof (induction s rule: Scanner_entryComment_cont.induct)
  case (1 s)
  show ?case
  proof (cases "reader s" rule: Reader_Next_cases)
    case (stop c r)
    with "1.prems" show ?thesis
      by (auto simp: Scanner_entryComment_cont.simps[of s] plen_def)
  next
    case (ok x xs r)
    with "1.prems" "1.IH"[of "Char charOk x" r] show ?thesis
      by (auto simp: Scanner_entryComment_cont.simps[of s] handler_defs split: if_splits)
  qed
qed

lemma entryComment_loop_progress:
  "Scanner_entryComment_loop buf s = (st, s') \<Longrightarrow>
     (items s' = items s \<and> plen s' \<le> plen s \<and> (st = eof \<or> st = err)) \<or>
     (items s' = items s \<and> plen s' < plen s) \<or>
     (\<exists>i. items s' = items s @ [i] \<and> plen s' < plen s)"
proof (induction buf s rule: Scanner_entryComment_loop.induct)
  case (1 buf s)
  show ?case
  proof (cases "reader s" rule: Reader_Next_cases)
    case (stop c r)
    with "1.prems" show ?thesis
      by (auto simp: Scanner_entryComment_loop.simps[of buf s] plen_def)
  next
    case (ok x xs r)
    show ?thesis
    proof (cases "x = newline_r")
      case True
      show ?thesis
      proof (cases "strings_TrimSpace buf \<noteq> []")
        case True
        with \<open>x = newline_r\<close> ok "1.prems"
        have "Scanner_entryComment_cont
                (send (Item ItemComment (strings_TrimSpace buf)) (s\<lparr>reader := r\<rparr>)) = (st, s')"
          by (simp add: Scanner_entryComment_loop.simps[of buf s])
        from entryComment_cont_progress[OF this] ok show ?thesis
          by (auto simp: handler_defs)
      next
        case False
        with \<open>x = newline_r\<close> ok "1.prems"
        have "Scanner_entryComment_cont (s\<lparr>reader := r\<rparr>) = (st, s')"
          by (simp add: Scanner_entryComment_loop.simps[of buf s])
        from entryComment_cont_progress[OF this] ok show ?thesis
          by (auto simp: handler_defs)
      qed
    next
      case False
      with ok "1.prems" "1.IH"[of "Char charOk x" r] show ?thesis
        by (auto simp: Scanner_entryComment_loop.simps[of buf s] handler_defs split: if_splits)
    qed
  qed
qed

lemma entryTypeOrBrace_progress:
  "Scanner_entryTypeOrBrace s = (st, s') \<Longrightarrow>
     items s' = items s \<and> plen s' \<le> plen s \<and>
     (st = eof \<or> st = err \<or> st = entryRightBodyDelim \<or> st = entryFieldType \<or>
      (st = entryComment \<and> plen s' < plen s))"
proof (induction s rule: Scanner_entryTypeOrBrace.induct)
  case (1 s)
  show ?case
  proof (cases "reader s" rule: Reader_Next_cases)
    case (stop c r)
    with "1.prems" show ?thesis
      by (auto simp: Scanner_entryTypeOrBrace.simps[of s] plen_def)
  next
    case (ok x xs r)
    with "1.prems" "1.IH"[of "Char charOk x" r] show ?thesis
      by (auto simp: Scanner_entryTypeOrBrace.simps[of s] handler_defs split: if_splits)
  qed
qed

lemma entryFieldType_loop_progress:
  "Scanner_entryFieldType_loop buf s = (st, s') \<Longrightarrow>
     (items s' = items s \<and> plen s' \<le> plen s \<and> (st = eof \<or> st = err)) \<or>
     (\<exists>i. items s' = items s @ [i] \<and> plen s' < plen s + length buf)"
proof (induction buf s rule: Scanner_entryFieldType_loop.induct)
  case (1 buf s)
  show ?case
  proof (cases "reader s" rule: Reader_Next_cases)
    case (stop c r)
    with "1.prems" show ?thesis
      by (auto simp: Scanner_entryFieldType_loop.simps[of buf s] plen_def)
  next
    case (ok x xs r)
    with "1.prems" "1.IH"[of "Char charOk x" r] show ?thesis
      using IsValidName_Trim_pos[of buf]
      by (auto simp: Scanner_entryFieldType_loop.simps[of buf s] handler_defs split: if_splits)
  qed
qed

lemma entryEqSgn_progress:
  "Scanner_entryEqSgn s = (st, s') \<Longrightarrow>
     (items s' = items s \<and> plen s' \<le> plen s \<and> (st = eof \<or> st = err)) \<or>
     (\<exists>i. items s' = items s @ [i] \<and> plen s' < plen s)"
proof (induction s rule: Scanner_entryEqSgn.induct)
  case (1 s)
  show ?case
  proof (cases "reader s" rule: Reader_Next_cases)
    case (stop c r)
    with "1.prems" show ?thesis
      by (auto simp: Scanner_entryEqSgn.simps[of s] plen_def)
  next
    case (ok x xs r)
    with "1.prems" "1.IH"[of "Char charOk x" r] show ?thesis
      by (auto simp: Scanner_entryEqSgn.simps[of s] handler_defs split: if_splits)
  qed
qed

lemma entryFieldText_loop_progress:
  "Scanner_entryFieldText_loop buf quotes prev s = (st, s') \<Longrightarrow>
     (items s' = items s \<and> plen s' \<le> plen s \<and> (st = eof \<or> st = err)) \<or>
     (\<exists>i. items s' = items s @ [i] \<and> plen s' < plen s + length buf)"
proof (induction buf quotes prev s rule: Scanner_entryFieldText_loop.induct)
  case (1 buf quotes prev s)
  show ?case
  proof (cases "reader s" rule: Reader_Next_cases)
    case (stop c r)
    with "1.prems" show ?thesis
      by (auto simp: Scanner_entryFieldText_loop.simps[of buf quotes prev s] plen_def)
  next
    case (ok x xs r)
    note IH = "1.IH"[of "Char charOk x" r, OF _ _ refl refl]
    from ok "1.prems" IH show ?thesis
      using fieldTextOk_Trim_pos[of buf]
      by (auto simp: Scanner_entryFieldText_loop.simps[of buf quotes prev s] handler_defs Let_def
               split: if_splits)
  qed
qed

lemma Scanner_step_progress: "progress s (states (state s) s)"
proof (cases "states (state s) s")
  case (Pair st s')
  show ?thesis
  proof (cases "state s")
    case null_s
    with Pair show ?thesis by (auto simp: progress_def Scanner_null_def)
  next
    case entryDelim
    with Pair entryDelim_progress[of s st s'] show ?thesis by (auto simp: progress_def)
  next
    case topLvlComment
    with Pair topLvlComment_loop_progress[of "[]" s st s'] show ?thesis
      by (auto simp: progress_def Scanner_topLvlComment_def)
  next
    case entryComment
    with Pair entryComment_loop_progress[of "[]" s st s'] rank_le[of st] show ?thesis
      by (auto simp: progress_def Scanner_entryComment_def)
  next
    case entryType
    with Pair entryType_loop_progress[of "[]" s st s'] show ?thesis
      by (auto simp: progress_def Scanner_entryType_def)
  next
    case entryLeftBodyDelim
    with Pair leftBodyDelim_progress[of s st s'] show ?thesis by (auto simp: progress_def)
  next
    case entryCiteKey
    with Pair citeKey_loop_progress[of "[]" s st s'] show ?thesis
      by (auto simp: progress_def Scanner_citeKey_def)
  next
    case entryComma
    with Pair entryComma_progress[of s st s'] show ?thesis by (auto simp: progress_def)
  next
    case entryFieldType
    with Pair entryFieldType_loop_progress[of "[]" s st s'] show ?thesis
      by (auto simp: progress_def Scanner_entryFieldType_def)
  next
    case entryRightBodyDelim
    with Pair rightBodyDelim_progress[of s st s'] show ?thesis by (auto simp: progress_def)
  next
    case entryEqSgn
    with Pair entryEqSgn_progress[of s st s'] show ?thesis by (auto simp: progress_def)
  next
    case entryFieldText
    with Pair entryFieldText_loop_progress[of "[]" 0 zero_r s st s'] show ?thesis
      by (auto simp: progress_def Scanner_entryFieldText_def)
  next
    case entryTypeOrBrace
    with Pair entryTypeOrBrace_progress[of s st s'] show ?thesis by (auto simp: progress_def)
  next
    case eof
    with Pair show ?thesis by (auto simp: progress_def Scanner_eof_def send_def plen_def)
  next
    case err
    with Pair show ?thesis by (auto simp: progress_def Scanner_err_def send_def plen_def)
  qed
qed

subsection \<open>Next\<close>

text \<open>
  \<open>Next\<close> receives from the channel when it holds an item and otherwise runs the handler of
  the current state and tries again.
\<close>

function Scanner_Next :: "Scanner \<Rightarrow> Item \<times> Scanner" where
  "Scanner_Next s =
     (case items s of
        i # rest \<Rightarrow> (i, s\<lparr>items := rest\<rparr>)
      | [] \<Rightarrow> Scanner_Next (Scanner_step s))"
  by pat_completeness auto
termination
proof (relation "measure (\<lambda>s. if items s \<noteq> [] then 0 else Suc (4 * plen s + rank (state s)))")
  show "wf (measure (\<lambda>s. if items s \<noteq> [] then 0 else Suc (4 * plen s + rank (state s))))"
    by simp
next
  fix s :: Scanner
  assume e: "items s = []"
  obtain st s' where r: "states (state s) s = (st, s')"
    by (cases "states (state s) s")
  from Scanner_step_progress[of s] r e
  show "(Scanner_step s, s) \<in>
          measure (\<lambda>s. if items s \<noteq> [] then 0 else Suc (4 * plen s + rank (state s)))"
    by (auto simp: progress_def Scanner_step_def plen_def)
qed

declare Scanner_Next.simps [simp del]

lemma Scanner_Next_Cons: "items s = i # rest \<Longrightarrow> Scanner_Next s = (i, s\<lparr>items := rest\<rparr>)"
  by (simp add: Scanner_Next.simps[of s])

lemma Scanner_Next_Nil: "items s = [] \<Longrightarrow> Scanner_Next s = Scanner_Next (Scanner_step s)"
  by (simp add: Scanner_Next.simps[of s])

lemma Scanner_Next_decreases:
  "Scanner_Next s = (i, s') \<Longrightarrow> T i \<noteq> ItemErr \<Longrightarrow> T i \<noteq> ItemEOF \<Longrightarrow>
     2 * plen s' + length (items s') < 2 * plen s + length (items s)"
proof (induction s rule: Scanner_Next.induct)
  case (1 s)
  show ?case
  proof (cases "items s")
    case (Cons j rest)
    with "1.prems" show ?thesis
      by (auto simp: Scanner_Next.simps[of s] plen_def)
  next
    case Nil
    obtain st s1 where r: "states (state s) s = (st, s1)"
      by (cases "states (state s) s")
    have step: "Scanner_step s = s1\<lparr>state := st\<rparr>"
      by (simp add: Scanner_step_def r)
    from Nil "1.prems" have nx: "Scanner_Next (Scanner_step s) = (i, s')"
      by (simp add: Scanner_Next.simps[of s])
    from Scanner_step_progress[of s] r Nil
    consider (quiet) "items s1 = []" "plen s1 \<le> plen s"
      | (sent) j where "items s1 = [j]" "plen s1 \<le> plen s"
          "T j = ItemErr \<or> T j = ItemEOF \<or> plen s1 < plen s"
      by (auto simp: progress_def)
    then show ?thesis
    proof cases
      case quiet
      from "1.IH"[OF Nil nx "1.prems"(2,3)] quiet Nil show ?thesis
        by (simp add: step plen_def)
    next
      case sent
      from sent have "items (Scanner_step s) = j # []"
        by (simp add: step)
      from Scanner_Next_Cons[OF this] nx
      have "i = j" "s' = (Scanner_step s)\<lparr>items := []\<rparr>"
        by auto
      with sent "1.prems" Nil show ?thesis
        by (auto simp: step plen_def)
    qed
  qed
qed

text \<open>
  A \<open>Scannable\<close> is anything with a \<open>Next\<close> that returns items.  It is modelled by what it
  will return: the items \<open>upcoming\<close>, and after them the end-of-input item for ever, or the
  error item for ever when \<open>failed\<close>.
\<close>

record Scannable =
  upcoming :: "Item list"
  failed :: bool

definition Scannable_Next :: "Scannable \<Rightarrow> Item \<times> Scannable" where
  "Scannable_Next sc =
     (case upcoming sc of
        [] \<Rightarrow> (Item (if failed sc then ItemErr else ItemEOF) [], sc)
      | i # rest \<Rightarrow> (i, sc\<lparr>upcoming := rest\<rparr>))"

text \<open>The scanner seen as a \<open>Scannable\<close>: the items it returns up to the first terminal one.\<close>

function Scanner_run :: "Scanner \<Rightarrow> Item list \<times> bool" where
  "Scanner_run s =
     (case Scanner_Next s of (i, s') \<Rightarrow>
        if T i = ItemErr then ([], True)
        else if T i = ItemEOF then ([], False)
        else (case Scanner_run s' of (ts, f) \<Rightarrow> (i # ts, f)))"
  by pat_completeness auto
termination
  by (relation "measure (\<lambda>s. 2 * plen s + length (items s))")
     (auto dest: Scanner_Next_decreases[OF sym])

declare Scanner_run.simps [simp del]

definition Scannable_of :: "Scanner \<Rightarrow> Scannable" where
  "Scannable_of s = (case Scanner_run s of (ts, f) \<Rightarrow> \<lparr>upcoming = ts, failed = f\<rparr>)"

section \<open>The parser (package parse, Parser)\<close>

datatype state_p = null_p | comms | decl | entry_p | preamble_p | abbrev_p | err_p | eof_p

datatype CommentExpr = CommentExpr (CommentValue: string)

datatype CommentGroupExpr = CommentGroupExpr (Values: "CommentExpr list")

datatype FieldStmt = FieldStmt (Key: string) (Value: string)

text \<open>
  The declaration nodes.  A pointer field that may be nil (\<open>Comments\<close>, \<open>Field\<close>) is an
  option; a string or slice field starts at its zero value.
\<close>

datatype Node =
    EntryDecl (Name: string) (CiteKey: string) (Comments: "CommentGroupExpr option")
      (Fields: "FieldStmt list")
  | AbbrevDecl (Comments: "CommentGroupExpr option") (Field: "FieldStmt option")
  | PreambleDecl (Comments: "CommentGroupExpr option") (PreambleValue: string)
  | BadDecl

text \<open>
  The channel \<open>nodes\<close> is the list of the nodes sent and not yet received, with \<open>closed\<close>
  set once the channel has been closed.  The parser holds its \<open>Scannable\<close>; \<open>currDecl\<close> is
  nil until \<open>decl\<close> has run.
\<close>

record Parser =
  scanner :: Scannable
  nodes :: "Node list"
  closed :: bool
  comments :: CommentGroupExpr
  currDecl :: "Node option"
  state_p :: state_p

definition NewParser :: "Scannable \<Rightarrow> Parser" where
  "NewParser sc = \<lparr>scanner = sc, nodes = [], closed = False, comments = CommentGroupExpr [],
     currDecl = None, state_p = null_p\<rparr>"

definition FieldStmt_ok :: "FieldStmt \<Rightarrow> bool" where
  "FieldStmt_ok f = (if Key f = [] \<or> Value f = [] then False else True)"

definition resetComms :: "Parser \<Rightarrow> Parser" where
  "resetComms p = p\<lparr>comments := CommentGroupExpr []\<rparr>"

definition Parser_checkErr :: "ItemType \<Rightarrow> state_p" where
  "Parser_checkErr ty = (if ty = ItemErr then err_p else if ty = ItemEOF then eof_p else null_p)"

text \<open>\<open>p.comments.Values = append(p.comments.Values, &v)\<close> with \<open>v\<close> the comment of the item.\<close>

definition appendComment :: "string \<Rightarrow> Parser \<Rightarrow> Parser" where
  "appendComment v p = p\<lparr>comments := CommentGroupExpr (Values (comments p) @ [CommentExpr v])\<rparr>"

text \<open>The assignments to the fields of the declaration under construction.\<close>

fun setCiteKey :: "string \<Rightarrow> Node \<Rightarrow> Node" where
  "setCiteKey k (EntryDecl n _ c fs) = EntryDecl n k c fs"
| "setCiteKey k d = d"

fun appendField :: "FieldStmt \<Rightarrow> Node \<Rightarrow> Node" where
  "appendField f (EntryDecl n k c fs) = EntryDecl n k c (fs @ [f])"
| "appendField f d = d"

fun setComments :: "CommentGroupExpr \<Rightarrow> Node \<Rightarrow> Node" where
  "setComments g (EntryDecl n k _ fs) = EntryDecl n k (Some g) fs"
| "setComments g (AbbrevDecl _ f) = AbbrevDecl (Some g) f"
| "setComments g (PreambleDecl _ v) = PreambleDecl (Some g) v"
| "setComments g BadDecl = BadDecl"

fun setValue :: "string \<Rightarrow> Node \<Rightarrow> Node" where
  "setValue v (PreambleDecl c _) = PreambleDecl c v"
| "setValue v d = d"

fun setField :: "FieldStmt option \<Rightarrow> Node \<Rightarrow> Node" where
  "setField f (AbbrevDecl c _) = AbbrevDecl c f"
| "setField f d = d"

definition Parser_null :: "Parser \<Rightarrow> state_p \<times> Parser" where
  "Parser_null p = (comms, p)"

definition Parser_err :: "Parser \<Rightarrow> state_p \<times> Parser" where
  "Parser_err p = (err_p, p\<lparr>closed := True\<rparr>)"

definition Parser_eof :: "Parser \<Rightarrow> state_p \<times> Parser" where
  "Parser_eof p = (eof_p, p\<lparr>closed := True\<rparr>)"

function Parser_comms :: "Parser \<Rightarrow> state_p \<times> Parser" where
  "Parser_comms p =
     (case Scannable_Next (scanner p) of (i, sc) \<Rightarrow>
        if Parser_checkErr (T i) \<noteq> null_p then (Parser_checkErr (T i), p\<lparr>scanner := sc\<rparr>)
        else if T i = ItemComment then Parser_comms (appendComment (Val i) (p\<lparr>scanner := sc\<rparr>))
        else if T i = ItemEntryDelim then (decl, p\<lparr>scanner := sc\<rparr>)
        else (err_p, resetComms (p\<lparr>scanner := sc\<rparr>)))"
  by pat_completeness auto
termination
  by (relation "measure (\<lambda>p. length (upcoming (scanner p)))")
     (auto simp: Scannable_Next_def Parser_checkErr_def appendComment_def
           split: list.splits if_splits)

definition Parser_decl :: "Parser \<Rightarrow> state_p \<times> Parser" where
  "Parser_decl p =
     (case Scannable_Next (scanner p) of (i, sc) \<Rightarrow>
        if Parser_checkErr (T i) \<noteq> null_p then (Parser_checkErr (T i), p\<lparr>scanner := sc\<rparr>)
        else if T i = ItemEntry then
          (entry_p, p\<lparr>scanner := sc,
                      currDecl := Some (EntryDecl (strings_ToLower (Val i)) [] None [])\<rparr>)
        else if T i = ItemAbbrev then
          (abbrev_p, p\<lparr>scanner := sc, currDecl := Some (AbbrevDecl None None)\<rparr>)
        else if T i = ItemPreamble then
          (preamble_p, p\<lparr>scanner := sc, currDecl := Some (PreambleDecl None [])\<rparr>)
        else (err_p, p\<lparr>scanner := sc\<rparr>))"

text \<open>
  The loops of \<open>entry\<close>, \<open>preamble\<close> and \<open>abbrev\<close> work on the declaration \<open>d\<close> that
  \<open>currDecl\<close> points to; the loop carries it and stores it back where the handler returns.
\<close>

function Parser_entry_loop :: "Node \<Rightarrow> FieldStmt \<Rightarrow> Parser \<Rightarrow> state_p \<times> Parser" where
  "Parser_entry_loop d stmt p =
     (case Scannable_Next (scanner p) of (i, sc) \<Rightarrow>
        if Parser_checkErr (T i) \<noteq> null_p
        then (Parser_checkErr (T i), p\<lparr>scanner := sc, currDecl := Some d\<rparr>)
        else if T i = ItemComment then
          Parser_entry_loop d stmt (appendComment (Val i) (p\<lparr>scanner := sc\<rparr>))
        else if T i = ItemFieldType then
          Parser_entry_loop d (FieldStmt (Val i) (Value stmt)) (p\<lparr>scanner := sc\<rparr>)
        else if T i = ItemFieldText then
          (if \<not> FieldStmt_ok (FieldStmt (Key stmt) (Val i))
           then (err_p, p\<lparr>scanner := sc, currDecl := Some d\<rparr>)
           else Parser_entry_loop (appendField (FieldStmt (Key stmt) (Val i)) d)
                  (FieldStmt [] []) (p\<lparr>scanner := sc\<rparr>))
        else if T i = ItemRightDelim then
          (null_p, (resetComms (p\<lparr>scanner := sc\<rparr>))
                     \<lparr>nodes := nodes p @ [setComments (comments p) d],
                      currDecl := Some (setComments (comments p) d)\<rparr>)
        else if T i = ItemComma \<or> T i = ItemEqSgn then
          Parser_entry_loop d stmt (p\<lparr>scanner := sc\<rparr>)
        else (err_p, p\<lparr>scanner := sc, currDecl := Some d\<rparr>))"
  by pat_completeness auto
termination
  by (relation "measure (\<lambda>(d, stmt, p). length (upcoming (scanner p)))")
     (auto simp: Scannable_Next_def Parser_checkErr_def appendComment_def
           split: list.splits if_splits)

definition Parser_entry :: "Parser \<Rightarrow> state_p \<times> Parser" where
  "Parser_entry p =
     (case currDecl p of
        Some (EntryDecl n k c fs) \<Rightarrow>
          (case Scannable_Next (scanner p) of (i, sc) \<Rightarrow>
             if Parser_checkErr (T i) \<noteq> null_p then (Parser_checkErr (T i), p\<lparr>scanner := sc\<rparr>)
             else (case Scannable_Next sc of (j, sc') \<Rightarrow>
               if Parser_checkErr (T j) \<noteq> null_p then (Parser_checkErr (T j), p\<lparr>scanner := sc'\<rparr>)
               else if T j \<noteq> ItemCiteKey then (err_p, p\<lparr>scanner := sc'\<rparr>)
               else Parser_entry_loop (setCiteKey (Val j) (EntryDecl n k c fs)) (FieldStmt [] [])
                      (p\<lparr>scanner := sc'\<rparr>)))
      | _ \<Rightarrow> (err_p, p))"

function Parser_preamble_loop :: "Node \<Rightarrow> Parser \<Rightarrow> state_p \<times> Parser" where
  "Parser_preamble_loop d p =
     (case Scannable_Next (scanner p) of (i, sc) \<Rightarrow>
        if Parser_checkErr (T i) \<noteq> null_p
        then (Parser_checkErr (T i), p\<lparr>scanner := sc, currDecl := Some d\<rparr>)
        else if T i = ItemComment then
          Parser_preamble_loop d (appendComment (Val i) (p\<lparr>scanner := sc\<rparr>))
        else if T i = ItemFieldText then
          Parser_preamble_loop (setValue (Val i) d) (p\<lparr>scanner := sc\<rparr>)
        else if T i = ItemRightDelim then
          (null_p, (resetComms (p\<lparr>scanner := sc\<rparr>))
                     \<lparr>nodes := nodes p @ [setComments (comments p) d],
                      currDecl := Some (setComments (comments p) d)\<rparr>)
        else (err_p, p\<lparr>scanner := sc, currDecl := Some d\<rparr>))"
  by pat_completeness auto
termination
  by (relation "measure (\<lambda>(d, p). length (upcoming (scanner p)))")
     (auto simp: Scannable_Next_def Parser_checkErr_def appendComment_def
           split: list.splits if_splits)

definition Parser_preamble :: "Parser \<Rightarrow> state_p \<times> Parser" where
  "Parser_preamble p =
     (case currDecl p of
        Some (PreambleDecl c v) \<Rightarrow>
          (case Scannable_Next (scanner p) of (i, sc) \<Rightarrow>
             if Parser_checkErr (T i) \<noteq> null_p then (Parser_checkErr (T i), p\<lparr>scanner := sc\<rparr>)
             else Parser_preamble_loop (PreambleDecl c v) (p\<lparr>scanner := sc\<rparr>))
      | _ \<Rightarrow> (err_p, p))"

text \<open>
  In \<open>abbrev\<close> the statement \<open>stmt\<close> is a local variable and \<open>decl.Field = &stmt\<close> makes the
  declaration point to it, so a later assignment to \<open>stmt\<close> shows through \<open>decl.Field\<close>.  The
  loop carries \<open>stmt\<close> and whether the pointer has been set (\<open>linked\<close>); \<open>withField\<close> is the
  declaration as it then reads.
\<close>

definition withField :: "bool \<Rightarrow> FieldStmt \<Rightarrow> Node \<Rightarrow> Node" where
  "withField linked stmt d = (if linked then setField (Some stmt) d else d)"

function Parser_abbrev_loop :: "Node \<Rightarrow> bool \<Rightarrow> FieldStmt \<Rightarrow> Parser \<Rightarrow> state_p \<times> Parser" where
  "Parser_abbrev_loop d linked stmt p =
     (case Scannable_Next (scanner p) of (i, sc) \<Rightarrow>
        if Parser_checkErr (T i) \<noteq> null_p
        then (Parser_checkErr (T i),
              p\<lparr>scanner := sc, currDecl := Some (withField linked stmt d)\<rparr>)
        else if T i = ItemComment then
          Parser_abbrev_loop d linked stmt (appendComment (Val i) (p\<lparr>scanner := sc\<rparr>))
        else if T i = ItemFieldType then
          Parser_abbrev_loop d linked (FieldStmt (Val i) (Value stmt)) (p\<lparr>scanner := sc\<rparr>)
        else if T i = ItemFieldText then
          (if \<not> FieldStmt_ok (FieldStmt (Key stmt) (Val i))
           then (err_p, p\<lparr>scanner := sc,
                          currDecl := Some (withField linked (FieldStmt (Key stmt) (Val i)) d)\<rparr>)
           else Parser_abbrev_loop d True (FieldStmt (Key stmt) (Val i)) (p\<lparr>scanner := sc\<rparr>))
        else if T i = ItemRightDelim then
          (null_p, (resetComms (p\<lparr>scanner := sc\<rparr>))
                     \<lparr>nodes := nodes p @ [setComments (comments p) (withField linked stmt d)],
                      currDecl := Some (setComments (comments p) (withField linked stmt d))\<rparr>)
        else if T i = ItemEqSgn then
          Parser_abbrev_loop d linked stmt (p\<lparr>scanner := sc\<rparr>)
        else (err_p, p\<lparr>scanner := sc, currDecl := Some (withField linked stmt d)\<rparr>))"
  by pat_completeness auto
termination
  by (relation "measure (\<lambda>(d, linked, stmt, p). length (upcoming (scanner p)))")
     (auto simp: Scannable_Next_def Parser_checkErr_def appendComment_def
           split: list.splits if_splits)

definition Parser_abbrev :: "Parser \<Rightarrow> state_p \<times> Parser" where
  "Parser_abbrev p =
     (case currDecl p of
        Some (AbbrevDecl c f) \<Rightarrow>
          (case Scannable_Next (scanner p) of (i, sc) \<Rightarrow>
             if Parser_checkErr (T i) \<noteq> null_p then (Parser_checkErr (T i), p\<lparr>scanner := sc\<rparr>)
             else Parser_abbrev_loop (AbbrevDecl c f) False (FieldStmt [] []) (p\<lparr>scanner := sc\<rparr>))
      | _ \<Rightarrow> (err_p, p))"

declare Parser_comms.simps [simp del] Parser_entry_loop.simps [simp del]
  Parser_preamble_loop.simps [simp del] Parser_abbrev_loop.simps [simp del]

text \<open>The table \<open>states\<close> built by \<open>NewParser\<close>, and one turn of \<open>Next\<close>'s default branch.\<close>

fun states_p :: "state_p \<Rightarrow> Parser \<Rightarrow> state_p \<times> Parser" where
  "states_p null_p = Parser_null"
| "states_p comms = Parser_comms"
| "states_p decl = Parser_decl"
| "states_p entry_p = Parser_entry"
| "states_p preamble_p = Parser_preamble"
| "states_p abbrev_p = Parser_abbrev"
| "states_p err_p = Parser_err"
| "states_p eof_p = Parser_eof"

definition Parser_step :: "Parser \<Rightarrow> Parser" where
  "Parser_step p = (case states_p (state_p p) p of (st, p') \<Rightarrow> p'\<lparr>state_p := st\<rparr>)"

subsection \<open>Every parser handler makes progress\<close>

definition ulen :: "Parser \<Rightarrow> nat" where
  "ulen p = length (upcoming (scanner p))"

fun rank_p :: "state_p \<Rightarrow> nat" where
  "rank_p null_p = 4"
| "rank_p comms = 3"
| "rank_p decl = 2"
| "rank_p err_p = 0"
| "rank_p eof_p = 0"
| "rank_p _ = 1"

lemma Scannable_Next_cases:
  obtains (stop) i where "Scannable_Next sc = (i, sc)" "Parser_checkErr (T i) \<noteq> null_p"
      "upcoming sc = []"
  | (tok) i rest where "Scannable_Next sc = (i, sc\<lparr>upcoming := rest\<rparr>)" "upcoming sc = i # rest"
  by (cases "upcoming sc") (auto simp: Scannable_Next_def Parser_checkErr_def)

definition quiet_p :: "Parser \<Rightarrow> state_p \<times> Parser \<Rightarrow> bool" where
  "quiet_p p res = (case res of (st, p') \<Rightarrow>
     nodes p' = nodes p \<and> closed p' = closed p \<and> ulen p' \<le> ulen p)"

definition body_p :: "Parser \<Rightarrow> state_p \<times> Parser \<Rightarrow> bool" where
  "body_p p res = (case res of (st, p') \<Rightarrow>
     closed p' = closed p \<and>
     ((nodes p' = nodes p \<and> ulen p' \<le> ulen p \<and> (st = err_p \<or> st = eof_p)) \<or>
      ((\<exists>d. nodes p' = nodes p @ [d]) \<and> ulen p' < ulen p \<and> st = null_p)))"

lemmas parser_defs = ulen_def appendComment_def resetComms_def body_p_def quiet_p_def

lemma Parser_checkErr_cases: "Parser_checkErr ty = null_p \<or> Parser_checkErr ty = err_p \<or> Parser_checkErr ty = eof_p"
  by (simp add: Parser_checkErr_def)

lemma Parser_comms_progress:
  "Parser_comms p = (st, p') \<Longrightarrow>
     quiet_p p (st, p') \<and> (st = decl \<or> st = err_p \<or> st = eof_p)"
proof (induction p rule: Parser_comms.induct)
  case (1 p)
  show ?case
  proof (cases "scanner p" rule: Scannable_Next_cases)
    case (stop i)
    with "1.prems" Parser_checkErr_cases[of "T i"] show ?thesis
      by (auto simp: Parser_comms.simps[of p] parser_defs)
  next
    case (tok i rest)
    with "1.prems" "1.IH"[of i "scanner p\<lparr>upcoming := rest\<rparr>"] Parser_checkErr_cases[of "T i"]
    show ?thesis
      by (auto simp: Parser_comms.simps[of p] parser_defs split: if_splits)
  qed
qed

lemma Parser_entry_loop_progress:
  "Parser_entry_loop d stmt p = (st, p') \<Longrightarrow> body_p p (st, p')"
proof (induction d stmt p rule: Parser_entry_loop.induct)
  case (1 d stmt p)
  show ?case
  proof (cases "scanner p" rule: Scannable_Next_cases)
    case (stop i)
    with "1.prems" Parser_checkErr_cases[of "T i"] show ?thesis
      by (auto simp: Parser_entry_loop.simps[of d stmt p] parser_defs)
  next
    case (tok i rest)
    with "1.prems" "1.IH"[of i "scanner p\<lparr>upcoming := rest\<rparr>"] Parser_checkErr_cases[of "T i"]
    show ?thesis
      by (auto simp: Parser_entry_loop.simps[of d stmt p] parser_defs split: if_splits)
  qed
qed

lemma Parser_preamble_loop_progress:
  "Parser_preamble_loop d p = (st, p') \<Longrightarrow> body_p p (st, p')"
proof (induction d p rule: Parser_preamble_loop.induct)
  case (1 d p)
  show ?case
  proof (cases "scanner p" rule: Scannable_Next_cases)
    case (stop i)
    with "1.prems" Parser_checkErr_cases[of "T i"] show ?thesis
      by (auto simp: Parser_preamble_loop.simps[of d p] parser_defs)
  next
    case (tok i rest)
    with "1.prems" "1.IH"[of i "scanner p\<lparr>upcoming := rest\<rparr>"] Parser_checkErr_cases[of "T i"]
    show ?thesis
      by (auto simp: Parser_preamble_loop.simps[of d p] parser_defs split: if_splits)
  qed
qed

lemma Parser_abbrev_loop_progress:
  "Parser_abbrev_loop d linked stmt p = (st, p') \<Longrightarrow> body_p p (st, p')"
proof (induction d linked stmt p rule: Parser_abbrev_loop.induct)
  case (1 d linked stmt p)
  show ?case
  proof (cases "scanner p" rule: Scannable_Next_cases)
    case (stop i)
    with "1.prems" Parser_checkErr_cases[of "T i"] show ?thesis
      by (auto simp: Parser_abbrev_loop.simps[of d linked stmt p] parser_defs)
  next
    case (tok i rest)
    with "1.prems" "1.IH"[of i "scanner p\<lparr>upcoming := rest\<rparr>"] Parser_checkErr_cases[of "T i"]
    show ?thesis
      by (auto simp: Parser_abbrev_loop.simps[of d linked stmt p] parser_defs split: if_splits)
  qed
qed

lemma body_p_after:
  "body_p q res \<Longrightarrow> nodes q = nodes p \<Longrightarrow> closed q = closed p \<Longrightarrow> ulen q \<le> ulen p \<Longrightarrow>
   body_p p res"
  by (auto simp: body_p_def)

lemma Scannable_Next_ulen:
  "Scannable_Next sc = (i, sc') \<Longrightarrow> length (upcoming sc') \<le> length (upcoming sc)"
  by (cases sc rule: Scannable_Next_cases) auto

lemma Parser_entry_progress:
  "Parser_entry p = (st, p') \<Longrightarrow> body_p p (st, p')"
proof -
  assume a: "Parser_entry p = (st, p')"
  obtain i sc where n1: "Scannable_Next (scanner p) = (i, sc)"
    by (cases "Scannable_Next (scanner p)")
  obtain j sc' where n2: "Scannable_Next sc = (j, sc')"
    by (cases "Scannable_Next sc")
  note le = Scannable_Next_ulen[OF n1] Scannable_Next_ulen[OF n2]
  show ?thesis
  proof (cases "\<exists>n k c fs. currDecl p = Some (EntryDecl n k c fs) \<and>
      Parser_checkErr (T i) = null_p \<and> Parser_checkErr (T j) = null_p \<and> T j = ItemCiteKey")
    case True
    then obtain n k c fs where "currDecl p = Some (EntryDecl n k c fs)" by blast
    with True a n1 n2
    have "Parser_entry_loop (setCiteKey (Val j) (EntryDecl n k c fs)) (FieldStmt [] [])
            (p\<lparr>scanner := sc'\<rparr>) = (st, p')"
      by (simp add: Parser_entry_def Parser_checkErr_def)
    from Parser_entry_loop_progress[OF this] le show ?thesis
      by (auto intro: body_p_after simp: ulen_def)
  next
    case False
    with a n1 n2 le Parser_checkErr_cases[of "T i"] Parser_checkErr_cases[of "T j"]
    show ?thesis
      by (auto simp: Parser_entry_def parser_defs split: option.splits Node.splits if_splits)
  qed
qed

lemma Parser_preamble_progress:
  "Parser_preamble p = (st, p') \<Longrightarrow> body_p p (st, p')"
proof -
  assume a: "Parser_preamble p = (st, p')"
  obtain i sc where n1: "Scannable_Next (scanner p) = (i, sc)"
    by (cases "Scannable_Next (scanner p)")
  note le = Scannable_Next_ulen[OF n1]
  show ?thesis
  proof (cases "\<exists>c v. currDecl p = Some (PreambleDecl c v) \<and> Parser_checkErr (T i) = null_p")
    case True
    then obtain c v where "currDecl p = Some (PreambleDecl c v)" by blast
    with True a n1
    have "Parser_preamble_loop (PreambleDecl c v) (p\<lparr>scanner := sc\<rparr>) = (st, p')"
      by (simp add: Parser_preamble_def)
    from Parser_preamble_loop_progress[OF this] le show ?thesis
      by (auto intro: body_p_after simp: ulen_def)
  next
    case False
    with a n1 le Parser_checkErr_cases[of "T i"]
    show ?thesis
      by (auto simp: Parser_preamble_def parser_defs split: option.splits Node.splits if_splits)
  qed
qed

lemma Parser_abbrev_progress:
  "Parser_abbrev p = (st, p') \<Longrightarrow> body_p p (st, p')"
proof -
  assume a: "Parser_abbrev p = (st, p')"
  obtain i sc where n1: "Scannable_Next (scanner p) = (i, sc)"
    by (cases "Scannable_Next (scanner p)")
  note le = Scannable_Next_ulen[OF n1]
  show ?thesis
  proof (cases "\<exists>c f. currDecl p = Some (AbbrevDecl c f) \<and> Parser_checkErr (T i) = null_p")
    case True
    then obtain c f where "currDecl p = Some (AbbrevDecl c f)" by blast
    with True a n1
    have "Parser_abbrev_loop (AbbrevDecl c f) False (FieldStmt [] []) (p\<lparr>scanner := sc\<rparr>) = (st, p')"
      by (simp add: Parser_abbrev_def)
    from Parser_abbrev_loop_progress[OF this] le show ?thesis
      by (auto intro: body_p_after simp: ulen_def)
  next
    case False
    with a n1 le Parser_checkErr_cases[of "T i"]
    show ?thesis
      by (auto simp: Parser_abbrev_def parser_defs split: option.splits Node.splits if_splits)
  qed
qed

lemma Parser_decl_progress:
  "Parser_decl p = (st, p') \<Longrightarrow> quiet_p p (st, p') \<and> st \<noteq> null_p \<and> st \<noteq> comms \<and> st \<noteq> decl"
proof -
  assume a: "Parser_decl p = (st, p')"
  obtain i sc where n1: "Scannable_Next (scanner p) = (i, sc)"
    by (cases "Scannable_Next (scanner p)")
  from a n1 Scannable_Next_ulen[OF n1] Parser_checkErr_cases[of "T i"] show ?thesis
    by (auto simp: Parser_decl_def parser_defs split: if_splits)
qed

text \<open>What one turn of the parser's \<open>Next\<close> loop does to the channel and the token source.\<close>

lemma Parser_step_progress:
  assumes "nodes p = []" "\<not> closed p"
  shows "ulen (Parser_step p) \<le> ulen p \<and>
    ((nodes (Parser_step p) = [] \<and> \<not> closed (Parser_step p) \<and>
        rank_p (state_p (Parser_step p)) < rank_p (state_p p)) \<or>
     (nodes (Parser_step p) = [] \<and> closed (Parser_step p)) \<or>
     ((\<exists>d. nodes (Parser_step p) = [d]) \<and> ulen (Parser_step p) < ulen p))"
proof -
  obtain st p' where r: "states_p (state_p p) p = (st, p')"
    by (cases "states_p (state_p p) p")
  have step: "Parser_step p = p'\<lparr>state_p := st\<rparr>"
    by (simp add: Parser_step_def r)
  have "ulen p' \<le> ulen p \<and>
    ((nodes p' = [] \<and> \<not> closed p' \<and> rank_p st < rank_p (state_p p)) \<or>
     (nodes p' = [] \<and> closed p') \<or>
     ((\<exists>d. nodes p' = [d]) \<and> ulen p' < ulen p))"
  proof (cases "state_p p")
    case null_p
    with r assms show ?thesis by (auto simp: Parser_null_def ulen_def)
  next
    case comms
    with r assms Parser_comms_progress[of p st p'] show ?thesis
      by (auto simp: quiet_p_def ulen_def)
  next
    case decl
    with r assms Parser_decl_progress[of p st p'] show ?thesis
      by (cases st) (auto simp: quiet_p_def ulen_def)
  next
    case entry_p
    with r assms Parser_entry_progress[of p st p'] show ?thesis
      by (auto simp: body_p_def ulen_def)
  next
    case preamble_p
    with r assms Parser_preamble_progress[of p st p'] show ?thesis
      by (auto simp: body_p_def ulen_def)
  next
    case abbrev_p
    with r assms Parser_abbrev_progress[of p st p'] show ?thesis
      by (auto simp: body_p_def ulen_def)
  next
    case err_p
    with r assms show ?thesis by (auto simp: Parser_err_def ulen_def)
  next
    case eof_p
    with r assms show ?thesis by (auto simp: Parser_eof_def ulen_def)
  qed
  then show ?thesis
    by (simp add: step ulen_def)
qed

subsection \<open>Next, and the consumer's loop\<close>

text \<open>
  \<open>Next\<close> returns a node and \<open>true\<close> when the channel holds one, nil and \<open>false\<close> when the
  channel is closed and empty (\<open>None\<close> here), and otherwise runs the handler of the current
  state and tries again.
\<close>

function Parser_Next :: "Parser \<Rightarrow> Node option \<times> Parser" where
  "Parser_Next p =
     (case nodes p of
        n # rest \<Rightarrow> (Some n, p\<lparr>nodes := rest\<rparr>)
      | [] \<Rightarrow> if closed p then (None, p) else Parser_Next (Parser_step p))"
  by pat_completeness auto
termination
proof (relation "measure (\<lambda>p. if nodes p \<noteq> [] \<or> closed p then 0 else Suc (rank_p (state_p p)))")
  show "wf (measure (\<lambda>p. if nodes p \<noteq> [] \<or> closed p then 0 else Suc (rank_p (state_p p))))"
    by simp
next
  fix p :: Parser
  assume a: "nodes p = []" "\<not> closed p"
  from Parser_step_progress[OF a] a
  show "(Parser_step p, p) \<in>
          measure (\<lambda>p. if nodes p \<noteq> [] \<or> closed p then 0 else Suc (rank_p (state_p p)))"
    by auto
qed

declare Parser_Next.simps [simp del]

lemma Parser_Next_decreases:
  "Parser_Next p = (Some n, p') \<Longrightarrow>
     2 * ulen p' + length (nodes p') < 2 * ulen p + length (nodes p)"
proof (induction p rule: Parser_Next.induct)
  case (1 p)
  show ?case
  proof (cases "nodes p")
    case (Cons m rest)
    with "1.prems" show ?thesis
      by (auto simp: Parser_Next.simps[of p] ulen_def)
  next
    case Nil
    show ?thesis
    proof (cases "closed p")
      case True
      with Nil "1.prems" show ?thesis by (simp add: Parser_Next.simps[of p])
    next
      case False
      with Nil "1.prems" have nx: "Parser_Next (Parser_step p) = (Some n, p')"
        by (simp add: Parser_Next.simps[of p])
      from Parser_step_progress[OF Nil False]
      consider (quiet) "nodes (Parser_step p) = []" "ulen (Parser_step p) \<le> ulen p"
        | (sent) d where "nodes (Parser_step p) = [d]" "ulen (Parser_step p) < ulen p"
        by auto
      then show ?thesis
      proof cases
        case quiet
        from "1.IH"[OF Nil False nx] quiet Nil show ?thesis by simp
      next
        case sent
        with nx have "p' = (Parser_step p)\<lparr>nodes := []\<rparr>"
          by (simp add: Parser_Next.simps[of "Parser_step p"])
        with sent Nil show ?thesis by (simp add: ulen_def)
      qed
    qed
  qed
qed

text \<open>
  The loop of the consumer in \<open>main\<close>: call \<open>Next\<close> until it reports \<open>false\<close>.  \<open>Parser_all\<close>
  is the sequence of the declarations received.
\<close>

function Parser_all :: "Parser \<Rightarrow> Node list" where
  "Parser_all p =
     (case Parser_Next p of
        (None, p') \<Rightarrow> []
      | (Some n, p') \<Rightarrow> n # Parser_all p')"
  by pat_completeness auto
termination
  by (relation "measure (\<lambda>p. 2 * ulen p + length (nodes p))")
     (auto dest: Parser_Next_decreases[OF sym])

declare Parser_all.simps [simp del]

text \<open>The whole pipeline over an input: reader, scanner, parser, consumer.\<close>

definition pipeline :: "rune list \<Rightarrow> bool \<Rightarrow> Parser" where
  "pipeline inp f = NewParser (Scannable_of (NewScanner (NewReader inp f)))"

definition declarations :: "rune list \<Rightarrow> Node list" where
  "declarations inp = Parser_all (pipeline inp False)"

section \<open>Properties\<close>

subsection \<open>The parser does not look at the kind of the body delimiter\<close>

definition with_upcoming :: "Item list \<Rightarrow> Parser \<Rightarrow> Parser" where
  "with_upcoming ts p = p\<lparr>scanner := (scanner p)\<lparr>upcoming := ts\<rparr>\<rparr>"

text \<open>
  C10. After \<open>decl\<close> has dispatched on an entry, abbreviation or preamble keyword, the handler
  (\<open>entry\<close>, \<open>abbrev\<close>, \<open>preamble\<close>) takes the next item as the body delimiter and checks it
  only with \<open>checkErr\<close>.  So for every token sequence, whatever item other than the error
  and end-of-input item stands in that position, the two turns (dispatch, then body) do
  exactly what they do when a left delimiter stands there: the item is accepted silently
  and never causes a parse error by itself.
\<close>

theorem Parser_body_delim_unchecked:
  assumes "state_p p = decl"
    and "upcoming (scanner p) = kw # i # rest"
    and "T kw = ItemEntry \<or> T kw = ItemAbbrev \<or> T kw = ItemPreamble"
    and "T i \<noteq> ItemErr" and "T i \<noteq> ItemEOF"
  shows "Parser_step (Parser_step p) =
         Parser_step (Parser_step (with_upcoming (kw # Item ItemLeftDelim ''{'' # rest) p))"
proof -
  let ?q = "with_upcoming (kw # Item ItemLeftDelim ''{'' # rest) p"
  from assms(3) show ?thesis
  proof (elim disjE)
    assume k: "T kw = ItemEntry"
    with assms show ?thesis
      by (cases rest)
         (simp_all add: Parser_step_def Parser_decl_def Parser_entry_def Scannable_Next_def
            Parser_checkErr_def with_upcoming_def)
  next
    assume k: "T kw = ItemAbbrev"
    with assms show ?thesis
      by (cases rest)
         (simp_all add: Parser_step_def Parser_decl_def Parser_abbrev_def Scannable_Next_def
            Parser_checkErr_def with_upcoming_def)
  next
    assume k: "T kw = ItemPreamble"
    with assms show ?thesis
      by (cases rest)
         (simp_all add: Parser_step_def Parser_decl_def Parser_preamble_def Scannable_Next_def
            Parser_checkErr_def with_upcoming_def)
  qed
qed

definition comma_for_delim :: Parser where
  "comma_for_delim =
     (NewParser \<lparr>upcoming = [Item ItemEntry ''book'', Item ItemComma '','', Item ItemCiteKey ''k'',
                   Item ItemFieldType ''a'', Item ItemEqSgn ''='', Item ItemFieldText ''1'',
                   Item ItemRightDelim ''}''], failed = False\<rparr>)
       \<lparr>state_p := decl\<rparr>"

theorem Parser_body_delim_unchecked_witness:
  "state_p comma_for_delim = decl
   \<and> upcoming (scanner comma_for_delim) =
       Item ItemEntry ''book'' # Item ItemComma '','' # drop 2 (upcoming (scanner comma_for_delim))
   \<and> T (Item ItemComma '','') \<noteq> ItemErr \<and> T (Item ItemComma '','') \<noteq> ItemEOF
   \<and> state_p (Parser_step (Parser_step comma_for_delim)) = null_p
   \<and> nodes (Parser_step (Parser_step comma_for_delim)) =
       [EntryDecl ''book'' ''k'' (Some (CommentGroupExpr [])) [FieldStmt ''a'' ''1'']]"
proof -
  let ?rest = "drop 2 (upcoming (scanner comma_for_delim))"
  have s: "state_p comma_for_delim = decl"
    by (simp add: comma_for_delim_def)
  have u: "upcoming (scanner comma_for_delim) =
      Item ItemEntry ''book'' # Item ItemComma '','' # ?rest"
    by (simp add: comma_for_delim_def NewParser_def)
  have k: "T (Item ItemEntry ''book'') = ItemEntry \<or> T (Item ItemEntry ''book'') = ItemAbbrev \<or>
      T (Item ItemEntry ''book'') = ItemPreamble"
    by simp
  have t: "T (Item ItemComma '','') \<noteq> ItemErr" "T (Item ItemComma '','') \<noteq> ItemEOF"
    by simp_all
  have "state_p (Parser_step (Parser_step
          (with_upcoming (Item ItemEntry ''book'' # Item ItemLeftDelim ''{'' # ?rest)
             comma_for_delim))) = null_p
     \<and> nodes (Parser_step (Parser_step
          (with_upcoming (Item ItemEntry ''book'' # Item ItemLeftDelim ''{'' # ?rest)
             comma_for_delim))) =
       [EntryDecl ''book'' ''k'' (Some (CommentGroupExpr [])) [FieldStmt ''a'' ''1'']]"
    by code_simp
  with Parser_body_delim_unchecked[OF s u k t] s u t show ?thesis
    by simp
qed

subsection \<open>What the handlers send\<close>

text \<open>
  \<open>sent_ok i s\<close> says that \<open>i\<close> is an item a handler may have sent when it left the scanner
  as \<open>s\<close>: each kind of item comes with what its handler has checked.
\<close>

definition sent_ok :: "Item \<Rightarrow> Scanner \<Rightarrow> bool" where
  "sent_ok i s =
     (case T i of
        ItemErr \<Rightarrow> Val i = [] \<and> state s = err
      | ItemEOF \<Rightarrow> Val i = [] \<and> state s = eof
      | ItemEntryDelim \<Rightarrow> Val i = ''@''
      | ItemLeftDelim \<Rightarrow> Val i = [delim s] \<and> (delim s = CHR ''{'' \<or> delim s = CHR ''('')
      | ItemRightDelim \<Rightarrow> (\<exists>c. Val i = [c] \<and> delimsMatch (delim s) c)
      | ItemEqSgn \<Rightarrow> Val i = ''=''
      | ItemComma \<Rightarrow> Val i = '',''
      | ItemCiteKey \<Rightarrow> IsValidName (Val i)
      | ItemEntry \<Rightarrow> IsValidName (Val i) \<and> strings_ToLower (Val i) \<noteq> ''preamble'' \<and>
          strings_ToLower (Val i) \<noteq> ''string'' \<and> state s = entryLeftBodyDelim
      | ItemComment \<Rightarrow> Val i \<noteq> []
      | ItemAbbrev \<Rightarrow> IsValidName (Val i) \<and> strings_ToLower (Val i) = ''string'' \<and>
          state s = entryLeftBodyDelim
      | ItemPreamble \<Rightarrow> IsValidName (Val i) \<and> strings_ToLower (Val i) = ''preamble'' \<and>
          state s = entryLeftBodyDelim
      | ItemFieldType \<Rightarrow> IsValidName (Val i)
      | ItemFieldText \<Rightarrow> fieldTextOk (Val i)
      | _ \<Rightarrow> False)"

definition sends :: "Scanner \<Rightarrow> state \<times> Scanner \<Rightarrow> bool" where
  "sends s res =
     (case res of (st, s') \<Rightarrow>
        (items s' = items s \<and> delim s' = delim s) \<or>
        (\<exists>i. items s' = items s @ [i] \<and> sent_ok i (s'\<lparr>state := st\<rparr>) \<and>
             (T i \<noteq> ItemLeftDelim \<longrightarrow> delim s' = delim s)))"

lemmas sends_defs = sends_def sent_ok_def revert_def send_def

lemma sent_ok_cong: "state s' = state s \<Longrightarrow> delim s' = delim s \<Longrightarrow> sent_ok i s' = sent_ok i s"
  by (cases "T i") (simp_all add: sent_ok_def)

lemma topLvlComment_loop_sends:
  "Scanner_topLvlComment_loop buf s = (st, s') \<Longrightarrow> sends s (st, s')"
proof (induction buf s rule: Scanner_topLvlComment_loop.induct)
  case (1 buf s)
  show ?case
  proof (cases "reader s" rule: Reader_Next_cases)
    case (stop c r)
    with "1.prems" show ?thesis
      by (auto simp: Scanner_topLvlComment_loop.simps[of buf s] sends_def)
  next
    case (ok x xs r)
    with "1.prems" "1.IH"[of "Char charOk x" r] show ?thesis
      by (auto simp: Scanner_topLvlComment_loop.simps[of buf s] sends_defs split: if_splits)
  qed
qed

lemma entryDelim_sends:
  "Scanner_entryDelim s = (st, s') \<Longrightarrow> sends s (st, s')"
proof (induction s rule: Scanner_entryDelim.induct)
  case (1 s)
  show ?case
  proof (cases "reader s" rule: Reader_Next_cases)
    case (stop c r)
    with "1.prems" show ?thesis
      by (auto simp: Scanner_entryDelim.simps[of s] sends_def)
  next
    case (ok x xs r)
    with "1.prems" "1.IH"[of "Char charOk x" r] show ?thesis
      by (auto simp: Scanner_entryDelim.simps[of s] sends_defs split: if_splits)
  qed
qed

lemma entryType_loop_sends:
  "Scanner_entryType_loop buf s = (st, s') \<Longrightarrow> sends s (st, s')"
proof (induction buf s rule: Scanner_entryType_loop.induct)
  case (1 buf s)
  show ?case
  proof (cases "reader s" rule: Reader_Next_cases)
    case (stop c r)
    with "1.prems" show ?thesis
      by (auto simp: Scanner_entryType_loop.simps[of buf s] sends_def)
  next
    case (ok x xs r)
    with "1.prems" "1.IH"[of "Char charOk x" r] show ?thesis
      by (auto simp: Scanner_entryType_loop.simps[of buf s] sends_defs Let_def split: if_splits)
  qed
qed

lemma leftBodyDelim_sends:
  "Scanner_leftBodyDelim s = (st, s') \<Longrightarrow> sends s (st, s')"
proof (induction s rule: Scanner_leftBodyDelim.induct)
  case (1 s)
  show ?case
  proof (cases "reader s" rule: Reader_Next_cases)
    case (stop c r)
    with "1.prems" show ?thesis
      by (auto simp: Scanner_leftBodyDelim.simps[of s] sends_def)
  next
    case (ok x xs r)
    with "1.prems" "1.IH"[of "Char charOk x" r] show ?thesis
      by (auto simp: Scanner_leftBodyDelim.simps[of s] sends_defs Let_def split: if_splits entryT.splits)
  qed
qed

lemma rightBodyDelim_sends:
  "Scanner_rightBodyDelim s = (st, s') \<Longrightarrow> sends s (st, s')"
proof (induction s rule: Scanner_rightBodyDelim.induct)
  case (1 s)
  show ?case
  proof (cases "reader s" rule: Reader_Next_cases)
    case (stop c r)
    with "1.prems" show ?thesis
      by (auto simp: Scanner_rightBodyDelim.simps[of s] sends_def)
  next
    case (ok x xs r)
    with "1.prems" "1.IH"[of "Char charOk x" r] show ?thesis
      by (auto simp: Scanner_rightBodyDelim.simps[of s] sends_defs split: if_splits)
  qed
qed

lemma citeKey_loop_sends:
  "Scanner_citeKey_loop buf s = (st, s') \<Longrightarrow> sends s (st, s')"
proof (induction buf s rule: Scanner_citeKey_loop.induct)
  case (1 buf s)
  show ?case
  proof (cases "reader s" rule: Reader_Next_cases)
    case (stop c r)
    with "1.prems" show ?thesis
      by (auto simp: Scanner_citeKey_loop.simps[of buf s] sends_def)
  next
    case (ok x xs r)
    with "1.prems" "1.IH"[of "Char charOk x" r] show ?thesis
      by (auto simp: Scanner_citeKey_loop.simps[of buf s] sends_defs split: if_splits)
  qed
qed

lemma entryComma_sends:
  "Scanner_entryComma s = (st, s') \<Longrightarrow> sends s (st, s')"
proof (induction s rule: Scanner_entryComma.induct)
  case (1 s)
  show ?case
  proof (cases "reader s" rule: Reader_Next_cases)
    case (stop c r)
    with "1.prems" show ?thesis
      by (auto simp: Scanner_entryComma.simps[of s] sends_def)
  next
    case (ok x xs r)
    with "1.prems" "1.IH"[of "Char charOk x" r] show ?thesis
      by (auto simp: Scanner_entryComma.simps[of s] sends_defs split: if_splits)
  qed
qed

lemma entryComment_cont_sends:
  "Scanner_entryComment_cont s = (st, s') \<Longrightarrow> sends s (st, s')"
proof (induction s rule: Scanner_entryComment_cont.induct)
  case (1 s)
  show ?case
  proof (cases "reader s" rule: Reader_Next_cases)
    case (stop c r)
    with "1.prems" show ?thesis
      by (auto simp: Scanner_entryComment_cont.simps[of s] sends_def)
  next
    case (ok x xs r)
    with "1.prems" "1.IH"[of "Char charOk x" r] show ?thesis
      by (auto simp: Scanner_entryComment_cont.simps[of s] sends_defs split: if_splits)
  qed
qed

lemma sends_after_send:
  "sends (send i (s\<lparr>reader := r\<rparr>)) (st, s') \<Longrightarrow> items s' = items s @ [i] \<Longrightarrow>
   sent_ok i (s'\<lparr>state := st\<rparr>) \<Longrightarrow> T i \<noteq> ItemLeftDelim \<Longrightarrow> sends s (st, s')"
  by (auto simp: sends_def send_def)

lemma entryComment_cont_quiet:
  "Scanner_entryComment_cont s = (st, s') \<Longrightarrow> items s' = items s \<and> delim s' = delim s"
proof (induction s rule: Scanner_entryComment_cont.induct)
  case (1 s)
  show ?case
  proof (cases "reader s" rule: Reader_Next_cases)
    case (stop c r)
    with "1.prems" show ?thesis
      by (auto simp: Scanner_entryComment_cont.simps[of s])
  next
    case (ok x xs r)
    with "1.prems" "1.IH"[of "Char charOk x" r] show ?thesis
      by (auto simp: Scanner_entryComment_cont.simps[of s] revert_def split: if_splits)
  qed
qed

lemma entryComment_loop_sends:
  "Scanner_entryComment_loop buf s = (st, s') \<Longrightarrow> sends s (st, s')"
proof (induction buf s rule: Scanner_entryComment_loop.induct)
  case (1 buf s)
  show ?case
  proof (cases "reader s" rule: Reader_Next_cases)
    case (stop c r)
    with "1.prems" show ?thesis
      by (auto simp: Scanner_entryComment_loop.simps[of buf s] sends_def)
  next
    case (ok x xs r)
    show ?thesis
    proof (cases "x = newline_r")
      case True
      show ?thesis
      proof (cases "strings_TrimSpace buf \<noteq> []")
        case True
        with \<open>x = newline_r\<close> ok "1.prems"
        have "Scanner_entryComment_cont
                (send (Item ItemComment (strings_TrimSpace buf)) (s\<lparr>reader := r\<rparr>)) = (st, s')"
          by (simp add: Scanner_entryComment_loop.simps[of buf s])
        from entryComment_cont_quiet[OF this] True show ?thesis
          by (auto simp: sends_defs)
      next
        case False
        with \<open>x = newline_r\<close> ok "1.prems"
        have "Scanner_entryComment_cont (s\<lparr>reader := r\<rparr>) = (st, s')"
          by (simp add: Scanner_entryComment_loop.simps[of buf s])
        from entryComment_cont_quiet[OF this] show ?thesis
          by (auto simp: sends_defs)
      qed
    next
      case False
      with ok "1.prems" "1.IH"[of "Char charOk x" r] show ?thesis
        by (auto simp: Scanner_entryComment_loop.simps[of buf s] sends_defs split: if_splits)
    qed
  qed
qed

lemma entryTypeOrBrace_sends:
  "Scanner_entryTypeOrBrace s = (st, s') \<Longrightarrow> sends s (st, s')"
proof (induction s rule: Scanner_entryTypeOrBrace.induct)
  case (1 s)
  show ?case
  proof (cases "reader s" rule: Reader_Next_cases)
    case (stop c r)
    with "1.prems" show ?thesis
      by (auto simp: Scanner_entryTypeOrBrace.simps[of s] sends_def)
  next
    case (ok x xs r)
    with "1.prems" "1.IH"[of "Char charOk x" r] show ?thesis
      by (auto simp: Scanner_entryTypeOrBrace.simps[of s] sends_defs split: if_splits)
  qed
qed

lemma entryFieldType_loop_sends:
  "Scanner_entryFieldType_loop buf s = (st, s') \<Longrightarrow> sends s (st, s')"
proof (induction buf s rule: Scanner_entryFieldType_loop.induct)
  case (1 buf s)
  show ?case
  proof (cases "reader s" rule: Reader_Next_cases)
    case (stop c r)
    with "1.prems" show ?thesis
      by (auto simp: Scanner_entryFieldType_loop.simps[of buf s] sends_def)
  next
    case (ok x xs r)
    with "1.prems" "1.IH"[of "Char charOk x" r] show ?thesis
      by (auto simp: Scanner_entryFieldType_loop.simps[of buf s] sends_defs split: if_splits)
  qed
qed

lemma entryEqSgn_sends:
  "Scanner_entryEqSgn s = (st, s') \<Longrightarrow> sends s (st, s')"
proof (induction s rule: Scanner_entryEqSgn.induct)
  case (1 s)
  show ?case
  proof (cases "reader s" rule: Reader_Next_cases)
    case (stop c r)
    with "1.prems" show ?thesis
      by (auto simp: Scanner_entryEqSgn.simps[of s] sends_def)
  next
    case (ok x xs r)
    with "1.prems" "1.IH"[of "Char charOk x" r] show ?thesis
      by (auto simp: Scanner_entryEqSgn.simps[of s] sends_defs split: if_splits)
  qed
qed

lemma entryFieldText_loop_sends:
  "Scanner_entryFieldText_loop buf quotes prev s = (st, s') \<Longrightarrow> sends s (st, s')"
proof (induction buf quotes prev s rule: Scanner_entryFieldText_loop.induct)
  case (1 buf quotes prev s)
  show ?case
  proof (cases "reader s" rule: Reader_Next_cases)
    case (stop c r)
    with "1.prems" show ?thesis
      by (auto simp: Scanner_entryFieldText_loop.simps[of buf quotes prev s] sends_def)
  next
    case (ok x xs r)
    note IH = "1.IH"[of "Char charOk x" r, OF _ _ refl refl]
    from ok "1.prems" IH show ?thesis
      by (auto simp: Scanner_entryFieldText_loop.simps[of buf quotes prev s] sends_defs Let_def
               split: if_splits)
  qed
qed

lemma Scanner_step_sends: "sends s (states (state s) s)"
proof (cases "states (state s) s")
  case (Pair st s')
  show ?thesis
  proof (cases "state s")
    case null_s
    with Pair show ?thesis by (auto simp: sends_def Scanner_null_def)
  next
    case entryDelim
    with Pair entryDelim_sends[of s st s'] show ?thesis by simp
  next
    case topLvlComment
    with Pair topLvlComment_loop_sends[of "[]" s st s'] show ?thesis
      by (simp add: Scanner_topLvlComment_def)
  next
    case entryComment
    with Pair entryComment_loop_sends[of "[]" s st s'] show ?thesis
      by (simp add: Scanner_entryComment_def)
  next
    case entryType
    with Pair entryType_loop_sends[of "[]" s st s'] show ?thesis
      by (simp add: Scanner_entryType_def)
  next
    case entryLeftBodyDelim
    with Pair leftBodyDelim_sends[of s st s'] show ?thesis by simp
  next
    case entryCiteKey
    with Pair citeKey_loop_sends[of "[]" s st s'] show ?thesis
      by (simp add: Scanner_citeKey_def)
  next
    case entryComma
    with Pair entryComma_sends[of s st s'] show ?thesis by simp
  next
    case entryFieldType
    with Pair entryFieldType_loop_sends[of "[]" s st s'] show ?thesis
      by (simp add: Scanner_entryFieldType_def)
  next
    case entryRightBodyDelim
    with Pair rightBodyDelim_sends[of s st s'] show ?thesis by simp
  next
    case entryEqSgn
    with Pair entryEqSgn_sends[of s st s'] show ?thesis by simp
  next
    case entryFieldText
    with Pair entryFieldText_loop_sends[of "[]" 0 zero_r s st s'] show ?thesis
      by (simp add: Scanner_entryFieldText_def)
  next
    case entryTypeOrBrace
    with Pair entryTypeOrBrace_sends[of s st s'] show ?thesis by simp
  next
    case eof
    with Pair show ?thesis by (auto simp: sends_defs Scanner_eof_def)
  next
    case err
    with Pair show ?thesis by (auto simp: sends_defs Scanner_err_def)
  qed
qed

text \<open>
  The same for a whole call of \<open>Next\<close> that starts with the channel empty: it leaves the
  channel empty, and the item it returns is one its handler may send.
\<close>

lemma Scanner_Next_sends:
  "Scanner_Next s = (i, s') \<Longrightarrow> items s = [] \<Longrightarrow>
     items s' = [] \<and> sent_ok i s' \<and> (T i \<noteq> ItemLeftDelim \<longrightarrow> delim s' = delim s)"
proof (induction s rule: Scanner_Next.induct)
  case (1 s)
  obtain st s1 where r: "states (state s) s = (st, s1)"
    by (cases "states (state s) s")
  have step: "Scanner_step s = s1\<lparr>state := st\<rparr>"
    by (simp add: Scanner_step_def r)
  from "1.prems" have nx: "Scanner_Next (Scanner_step s) = (i, s')"
    by (simp add: Scanner_Next_Nil)
  from Scanner_step_sends[of s] r "1.prems"(2)
  consider (quiet) "items s1 = []" "delim s1 = delim s"
    | (sent) j where "items s1 = [j]" "sent_ok j (s1\<lparr>state := st\<rparr>)"
        "T j \<noteq> ItemLeftDelim \<longrightarrow> delim s1 = delim s"
    by (auto simp: sends_def)
  then show ?case
  proof cases
    case quiet
    with "1.IH"[OF "1.prems"(2) nx] show ?thesis
      by (simp add: step)
  next
    case sent
    then have "items (Scanner_step s) = j # []"
      by (simp add: step)
    from Scanner_Next_Cons[OF this] nx
    have "i = j" "s' = (Scanner_step s)\<lparr>items := []\<rparr>"
      by auto
    with sent show ?thesis
      by (simp add: step sent_ok_cong[of "s1\<lparr>state := st, items := []\<rparr>" "s1\<lparr>state := st\<rparr>"])
  qed
qed

subsection \<open>The end-of-input and error states are sinks\<close>

text \<open>The scanner after \<open>n\<close> calls of \<open>Next\<close>, and the item that call number \<open>n\<close> returns.\<close>

definition Scanner_after :: "nat \<Rightarrow> Scanner \<Rightarrow> Scanner" where
  "Scanner_after n s = ((\<lambda>s. snd (Scanner_Next s)) ^^ n) s"

definition Scanner_nth :: "nat \<Rightarrow> Scanner \<Rightarrow> Item" where
  "Scanner_nth n s = fst (Scanner_Next (Scanner_after n s))"

lemma Scanner_after_Suc: "Scanner_after (Suc n) s = snd (Scanner_Next (Scanner_after n s))"
  by (simp add: Scanner_after_def)

lemma Scanner_after_items: "items s = [] \<Longrightarrow> items (Scanner_after n s) = []"
proof (induction n)
  case 0
  then show ?case by (simp add: Scanner_after_def)
next
  case (Suc n)
  obtain i s' where nx: "Scanner_Next (Scanner_after n s) = (i, s')"
    by (cases "Scanner_Next (Scanner_after n s)")
  from Scanner_Next_sends[OF nx] Suc show ?case
    by (simp add: Scanner_after_Suc nx)
qed

lemma Scanner_sink:
  assumes "items s = []" and "state s = eof \<or> state s = err"
  shows "Scanner_Next s = (Item (if state s = eof then ItemEOF else ItemErr) [], s)"
proof -
  from assms have "items (Scanner_step s) = [Item (if state s = eof then ItemEOF else ItemErr) []]"
    and "(Scanner_step s)\<lparr>items := []\<rparr> = s"
    by (auto simp: Scanner_step_def Scanner_eof_def Scanner_err_def send_def)
  with Scanner_Next_Cons[of "Scanner_step s"] Scanner_Next_Nil[OF assms(1)] show ?thesis
    by simp
qed

lemma Scanner_Next_terminal:
  assumes "Scanner_Next s = (i, s')" and "items s = []" and "T i = ItemEOF \<or> T i = ItemErr"
  shows "Scanner_Next s' = (i, s')" and "state s' = (if T i = ItemEOF then eof else err)"
proof -
  from Scanner_Next_sends[OF assms(1,2)] assms(3)
  have e: "items s' = []" and v: "Val i = []" and st: "state s' = (if T i = ItemEOF then eof else err)"
    by (auto simp: sent_ok_def)
  from st show "state s' = (if T i = ItemEOF then eof else err)" .
  from assms(3) v have i: "i = Item (if T i = ItemEOF then ItemEOF else ItemErr) []"
    by (cases i) auto
  from Scanner_sink[OF e] st assms(3) i show "Scanner_Next s' = (i, s')"
    by (auto split: if_splits)
qed

text \<open>
  C8. \<open>Next\<close> is a total function that returns one item per call.  Once a freshly built
  scanner has returned the end-of-input or the error item (at call number \<open>n\<close>), the
  scanner is in the state \<open>eof\<close> or \<open>err\<close>, every later call returns that same item, and the
  scanner does not change any more: the two states are sinks and no other item follows.
\<close>

theorem Scanner_terminal_stable:
  assumes "T (Scanner_nth n (NewScanner r)) = ItemEOF \<or> T (Scanner_nth n (NewScanner r)) = ItemErr"
    and "n \<le> m"
  shows "Scanner_nth m (NewScanner r) = Scanner_nth n (NewScanner r) \<and>
         Scanner_after (Suc m) (NewScanner r) = Scanner_after (Suc n) (NewScanner r) \<and>
         state (Scanner_after (Suc m) (NewScanner r)) =
           (if T (Scanner_nth n (NewScanner r)) = ItemEOF then eof else err)"
proof -
  let ?s = "NewScanner r"
  let ?i = "Scanner_nth n ?s"
  let ?t = "Scanner_after (Suc n) ?s"
  have e: "items (Scanner_after n ?s) = []"
    by (rule Scanner_after_items) (simp add: NewScanner_def)
  have nx: "Scanner_Next (Scanner_after n ?s) = (?i, ?t)"
    by (simp add: Scanner_nth_def Scanner_after_Suc)
  note sink = Scanner_Next_terminal[OF nx e assms(1)]
  have "Scanner_after (Suc (n + k)) ?s = ?t" for k
  proof (induction k)
    case 0
    show ?case by simp
  next
    case (Suc k)
    have "Scanner_after (Suc (n + Suc k)) ?s = snd (Scanner_Next (Scanner_after (Suc (n + k)) ?s))"
      by (simp add: Scanner_after_Suc)
    with Suc sink(1) show ?case by simp
  qed
  note stay = this
  from assms(2) obtain k where m: "m = n + k"
    using le_Suc_ex by blast
  have "Scanner_nth m ?s = ?i"
  proof (cases k)
    case 0
    with m show ?thesis by simp
  next
    case (Suc j)
    with m have "Scanner_after m ?s = ?t"
      using stay[of j] by simp
    with sink(1) show ?thesis
      by (simp add: Scanner_nth_def)
  qed
  with stay[of k] m sink(2) show ?thesis
    by simp
qed

theorem Scanner_terminal_stable_witness:
  "(T (Scanner_nth 2 (NewScanner (NewReader ''@a'' False))) = ItemEOF \<or>
    T (Scanner_nth 2 (NewScanner (NewReader ''@a'' False))) = ItemErr) \<and> (2::nat) \<le> 5 \<and>
   Scanner_nth 1 (NewScanner (NewReader ''@a'' False)) = Item ItemEOF [] \<and>
   Scanner_nth 5 (NewScanner (NewReader ''@a'' False)) = Item ItemEOF [] \<and>
   state (Scanner_after 6 (NewScanner (NewReader ''@a'' False))) = eof"
proof -
  have a: "Scanner_nth 2 (NewScanner (NewReader ''@a'' False)) = Item ItemEOF []"
    by code_simp
  have b: "Scanner_nth 1 (NewScanner (NewReader ''@a'' False)) = Item ItemEOF []"
    by code_simp
  have h: "T (Scanner_nth 2 (NewScanner (NewReader ''@a'' False))) = ItemEOF \<or>
    T (Scanner_nth 2 (NewScanner (NewReader ''@a'' False))) = ItemErr"
    by (simp add: a)
  have le: "(2::nat) \<le> 5" by simp
  note th = Scanner_terminal_stable[OF h le]
  from th have c1: "Scanner_nth 5 (NewScanner (NewReader ''@a'' False)) =
      Scanner_nth 2 (NewScanner (NewReader ''@a'' False))"
    by (rule conjunct1)
  from th have c3: "state (Scanner_after (Suc 5) (NewScanner (NewReader ''@a'' False))) =
      (if T (Scanner_nth 2 (NewScanner (NewReader ''@a'' False))) = ItemEOF then eof else err)"
    by (rule conjunct2[THEN conjunct2])
  from c1 c3 a b h show ?thesis
    by simp
qed

subsection \<open>Quote parity in the field-text state\<close>

text \<open>
  The two counters of the field-text state as the specification words them, over the text
  read so far: \<open>toggles prev txt\<close> counts the quotes of \<open>txt\<close> that are not immediately
  preceded by a backslash (\<open>prev\<close> is the character before \<open>txt\<close>), and \<open>depth d txt\<close> is the
  brace depth after \<open>txt\<close>, raised by each opening brace and lowered by a closing brace while
  it is above one.  \<open>stays_in d q prev txt\<close> says that no character of \<open>txt\<close> ends the value.
\<close>

fun toggles :: "rune \<Rightarrow> string \<Rightarrow> nat" where
  "toggles prev [] = 0"
| "toggles prev (c # cs) = (if c = quote_r \<and> prev \<noteq> backslash_r then 1 else 0) + toggles c cs"

definition depth1 :: "int \<Rightarrow> rune \<Rightarrow> int" where
  "depth1 d c = (if c = CHR ''{'' then d + 1 else if c = CHR ''}'' \<and> d > 1 then d - 1 else d)"

fun depth :: "int \<Rightarrow> string \<Rightarrow> int" where
  "depth d [] = d"
| "depth d (c # cs) = depth (depth1 d c) cs"

definition ends_value :: "int \<Rightarrow> nat \<Rightarrow> rune \<Rightarrow> bool" where
  "ends_value d q c =
     (d = 1 \<and> (c = CHR ''}'' \<or> c = CHR '')'' \<or> c = CHR ''%'' \<or> (c = CHR '','' \<and> even q)))"

fun stays_in :: "int \<Rightarrow> nat \<Rightarrow> rune \<Rightarrow> string \<Rightarrow> bool" where
  "stays_in d q prev [] = True"
| "stays_in d q prev (c # cs) =
     (\<not> ends_value d q c \<and> stays_in (depth1 d c) (q + toggles prev [c]) c cs)"

lemma toggles_append: "toggles prev (xs @ ys) = toggles prev xs + toggles (last (prev # xs)) ys"
  by (induction xs arbitrary: prev) auto

lemma depth_append: "depth d (xs @ ys) = depth (depth d xs) ys"
  by (induction xs arbitrary: d) auto

lemma quote_neq [simp]:
  "quote_r \<noteq> CHR ''{''" "quote_r \<noteq> CHR ''}''" "quote_r \<noteq> CHR '')''" "quote_r \<noteq> CHR ''%''"
  "quote_r \<noteq> CHR '',''" "CHR ''{'' \<noteq> quote_r" "CHR ''}'' \<noteq> quote_r" "CHR '')'' \<noteq> quote_r"
  "CHR ''%'' \<noteq> quote_r" "CHR '','' \<noteq> quote_r"
  by (simp_all add: quote_r_def)

text \<open>One turn of the loop on a character that does not end the value.\<close>

lemma entryFieldText_loop_step:
  assumes "pending (reader s) = c # cs" and "\<not> ends_value (bracers s) q c"
  shows "Scanner_entryFieldText_loop buf q prev s =
         Scanner_entryFieldText_loop (buf @ [c]) (q + toggles prev [c]) c
           (s\<lparr>reader := (reader s)\<lparr>pending := cs, lastRune := Some c\<rparr>,
              bracers := depth1 (bracers s) c\<rparr>)"
proof -
  have rn: "Reader_Next (reader s) = (Char charOk c, (reader s)\<lparr>pending := cs, lastRune := Some c\<rparr>)"
    using assms(1) by (simp add: Reader_Next_def)
  have same: "s\<lparr>reader := r, bracers := bracers s\<rparr> = s\<lparr>reader := r\<rparr>" for r
    by simp
  from assms(2) show ?thesis
    by (subst Scanner_entryFieldText_loop.simps)
       (auto simp: rn Let_def ends_value_def depth1_def same)
qed

lemma entryFieldText_loop_prefix:
  assumes "stays_in (bracers s) q prev pre" and "pending (reader s) = pre @ rest" and "pre \<noteq> []"
  shows "Scanner_entryFieldText_loop buf q prev s =
         Scanner_entryFieldText_loop (buf @ pre) (q + toggles prev pre) (last pre)
           (s\<lparr>reader := (reader s)\<lparr>pending := rest, lastRune := Some (last pre)\<rparr>,
              bracers := depth (bracers s) pre\<rparr>)"
  using assms
proof (induction pre arbitrary: s q prev buf)
  case Nil
  then show ?case by simp
next
  case (Cons c cs)
  let ?s1 = "s\<lparr>reader := (reader s)\<lparr>pending := cs @ rest, lastRune := Some c\<rparr>,
                bracers := depth1 (bracers s) c\<rparr>"
  from Cons.prems have ne: "\<not> ends_value (bracers s) q c" and p: "pending (reader s) = c # (cs @ rest)"
    by simp_all
  note one = entryFieldText_loop_step[OF p ne, of buf prev]
  show ?case
  proof (cases "cs = []")
    case True
    with one show ?thesis by simp
  next
    case False
    from Cons.prems have "stays_in (bracers ?s1) (q + toggles prev [c]) c cs"
      by simp
    from Cons.IH[OF this _ False, of "buf @ [c]"] one False show ?thesis
      by simp
  qed
qed


text \<open>The turn of the loop on a comma at depth one.\<close>

lemma entryFieldText_loop_comma:
  assumes "pending (reader s) = CHR '','' # rest" and "bracers s = 1"
  shows "Scanner_entryFieldText_loop buf q prev s =
         (if even q
          then (if fieldTextOk (strings_TrimSpace buf)
                then (entryComma,
                      s\<lparr>reader := (reader s)\<lparr>pending := CHR '','' # rest, lastRune := None\<rparr>,
                        items := items s @ [Item ItemFieldText (strings_TrimSpace buf)]\<rparr>)
                else (err, s\<lparr>reader := (reader s)\<lparr>pending := rest, lastRune := Some (CHR '','')\<rparr>\<rparr>))
          else Scanner_entryFieldText_loop (buf @ '','') q (CHR '','')
                 (s\<lparr>reader := (reader s)\<lparr>pending := rest, lastRune := Some (CHR '','')\<rparr>\<rparr>))"
proof -
  have rn: "Reader_Next (reader s) =
      (Char charOk (CHR '',''), (reader s)\<lparr>pending := rest, lastRune := Some (CHR '','')\<rparr>)"
    using assms(1) by (simp add: Reader_Next_def)
  from assms(2) show ?thesis
    by (subst Scanner_entryFieldText_loop.simps)
       (auto simp: rn Let_def revert_def send_def Reader_Revert_def even_iff_mod_2_eq_zero)
qed

text \<open>
  C7. In the field-text state a quote whose immediately preceding character is a backslash
  does not raise the quote counter, whatever stands before that backslash (\<open>toggles\<close> looks
  at one character only, so a doubled backslash is not special).  Hence, for every text
  \<open>pre\<close> of a field value that the state reads without leaving and after which the brace
  depth is one, a comma that follows ends the value exactly when the number of counted
  quotes of \<open>pre\<close> is even: then the trimmed text is checked and sent (or the scanner
  fails), and otherwise the comma joins the buffer and the loop goes on.
\<close>

theorem entryFieldText_comma_parity:
  assumes "pending (reader s) = pre @ CHR '','' # rest"
    and "stays_in (bracers s) 0 zero_r pre"
    and "depth (bracers s) pre = 1"
  shows "(even (toggles zero_r pre) \<longrightarrow>
           Scanner_entryFieldText s =
             (if fieldTextOk (strings_TrimSpace pre)
              then (entryComma,
                    s\<lparr>reader := (reader s)\<lparr>pending := CHR '','' # rest, lastRune := None\<rparr>,
                      bracers := 1,
                      items := items s @ [Item ItemFieldText (strings_TrimSpace pre)]\<rparr>)
              else (err, s\<lparr>reader := (reader s)\<lparr>pending := rest, lastRune := Some (CHR '','')\<rparr>,
                           bracers := 1\<rparr>))) \<and>
         (odd (toggles zero_r pre) \<longrightarrow>
           Scanner_entryFieldText s =
             Scanner_entryFieldText_loop (pre @ '','') (toggles zero_r pre) (CHR '','')
               (s\<lparr>reader := (reader s)\<lparr>pending := rest, lastRune := Some (CHR '','')\<rparr>,
                  bracers := 1\<rparr>))"
proof (cases "pre = []")
  case True
  with assms have "pending (reader s) = CHR '','' # rest" "bracers s = 1"
    by simp_all
  from entryFieldText_loop_comma[OF this, of "[]" 0 zero_r] True \<open>bracers s = 1\<close> show ?thesis
    by (cases "fieldTextOk (strings_TrimSpace [])") (simp_all add: Scanner_entryFieldText_def)
next
  case False
  let ?s1 = "s\<lparr>reader := (reader s)\<lparr>pending := CHR '','' # rest, lastRune := Some (last pre)\<rparr>,
                bracers := depth (bracers s) pre\<rparr>"
  have p: "pending (reader ?s1) = CHR '','' # rest" and b: "bracers ?s1 = 1"
    using assms(3) by simp_all
  from entryFieldText_loop_prefix[OF assms(2) assms(1) False, of "[]"]
  have "Scanner_entryFieldText s =
      Scanner_entryFieldText_loop pre (toggles zero_r pre) (last pre) ?s1"
    by (simp add: Scanner_entryFieldText_def)
  moreover have "s\<lparr>bracers := 1, reader := X\<rparr> = s\<lparr>reader := X, bracers := 1\<rparr>" for X
    by simp
  ultimately show ?thesis
    using entryFieldText_loop_comma[OF p b, of pre "toggles zero_r pre" "last pre"] assms(3)
    by (cases "even (toggles zero_r pre)"; cases "fieldTextOk (strings_TrimSpace pre)") simp_all
qed

definition field_text_scanner :: "string \<Rightarrow> Scanner" where
  "field_text_scanner inp = (NewScanner (NewReader inp False))\<lparr>state := entryFieldText, bracers := 1\<rparr>"

definition esc_pre :: string where
  "esc_pre = [CHR '' '', quote_r, CHR ''a'', backslash_r, backslash_r, quote_r, CHR ''b'']"

definition esc_rest :: string where
  "esc_rest = [CHR '' '', CHR ''c'', quote_r, CHR '','']"

theorem entryFieldText_comma_parity_witness:
  "pending (reader (field_text_scanner (esc_pre @ CHR '','' # esc_rest))) =
     esc_pre @ CHR '','' # esc_rest \<and>
   stays_in (bracers (field_text_scanner (esc_pre @ CHR '','' # esc_rest))) 0 zero_r esc_pre \<and>
   depth (bracers (field_text_scanner (esc_pre @ CHR '','' # esc_rest))) esc_pre = 1 \<and>
   odd (toggles zero_r esc_pre) \<and>
   Scanner_entryFieldText (field_text_scanner (esc_pre @ CHR '','' # esc_rest)) =
     Scanner_entryFieldText_loop (esc_pre @ '','') 1 (CHR '','')
       ((field_text_scanner (esc_pre @ CHR '','' # esc_rest))
          \<lparr>reader := \<lparr>pending = esc_rest, fails = False, lastRune = Some (CHR '','')\<rparr>\<rparr>)"
proof -
  let ?s = "field_text_scanner (esc_pre @ CHR '','' # esc_rest)"
  have h1: "pending (reader ?s) = esc_pre @ CHR '','' # esc_rest"
    by (simp add: field_text_scanner_def NewScanner_def NewReader_def)
  have br: "bracers ?s = 1"
    by (simp add: field_text_scanner_def NewScanner_def)
  have h2: "stays_in (bracers ?s) 0 zero_r esc_pre"
    unfolding br by code_simp
  have h3: "depth (bracers ?s) esc_pre = 1"
    unfolding br by code_simp
  have t: "toggles zero_r esc_pre = 1"
    by code_simp
  have rd: "reader ?s = \<lparr>pending = esc_pre @ CHR '','' # esc_rest, fails = False, lastRune = None\<rparr>"
    by (simp add: field_text_scanner_def NewScanner_def NewReader_def)
  have same: "?s\<lparr>reader := X, bracers := 1\<rparr> = ?s\<lparr>reader := X\<rparr>" for X
    by (simp add: field_text_scanner_def NewScanner_def)
  from entryFieldText_comma_parity[OF h1 h2 h3] t
  have "Scanner_entryFieldText ?s =
      Scanner_entryFieldText_loop (esc_pre @ '','') 1 (CHR '','')
        (?s\<lparr>reader := \<lparr>pending = esc_rest, fails = False, lastRune = Some (CHR '','')\<rparr>\<rparr>)"
    by (simp add: rd same)
  with h1 h2 h3 t show ?thesis
    by simp
qed

subsection \<open>The end of the input inside a declaration body\<close>





















text \<open>A body whose closing delimiter never arrives gives no declaration.\<close>

definition unclosed :: "Parser \<Rightarrow> bool" where
  "unclosed p = (\<forall>i \<in> set (upcoming (scanner p)). T i \<noteq> ItemRightDelim)"



lemma unclosed_cong: "scanner q = scanner p \<Longrightarrow> unclosed q = unclosed p"
  by (simp add: unclosed_def)





lemma Parser_loops_eof:
  assumes "upcoming (scanner p) = []" and "\<not> failed (scanner p)"
  shows "Parser_entry_loop d stmt p = (eof_p, p\<lparr>currDecl := Some d\<rparr>)"
    and "Parser_preamble_loop d p = (eof_p, p\<lparr>currDecl := Some d\<rparr>)"
    and "Parser_abbrev_loop d linked stmt p = (eof_p, p\<lparr>currDecl := Some (withField linked stmt d)\<rparr>)"
  using assms
  by (simp_all add: Parser_entry_loop.simps[of d stmt p] Parser_preamble_loop.simps[of d p]
        Parser_abbrev_loop.simps[of d linked stmt p] Scannable_Next_def Parser_checkErr_def)

subsection \<open>What a body loop of the parser sends\<close>

text \<open>
  \<open>body_of ts\<close> are the items up to the first right delimiter, \<open>after_body ts\<close> the items
  after it, and \<open>vals k ts\<close> the texts of the items of kind \<open>k\<close>, in order.
\<close>

definition body_of :: "Item list \<Rightarrow> Item list" where
  "body_of ts = takeWhile (\<lambda>i. T i \<noteq> ItemRightDelim) ts"

definition after_body :: "Item list \<Rightarrow> Item list" where
  "after_body ts = tl (dropWhile (\<lambda>i. T i \<noteq> ItemRightDelim) ts)"

definition vals :: "ItemType \<Rightarrow> Item list \<Rightarrow> string list" where
  "vals k ts = map Val (filter (\<lambda>i. T i = k) ts)"

definition withComments :: "Parser \<Rightarrow> Item list \<Rightarrow> CommentGroupExpr" where
  "withComments p ts = CommentGroupExpr (Values (comments p) @ map CommentExpr (vals ItemComment ts))"

text \<open>
  \<open>sent p p' n ts\<close>: from \<open>p\<close> with the items \<open>ts\<close> ahead, the loop has consumed the body
  up to and including its right delimiter, sent the node \<open>n\<close>, and reset the comments.
\<close>

definition sent :: "Parser \<Rightarrow> Parser \<Rightarrow> Node \<Rightarrow> bool" where
  "sent p p' n =
     (nodes p' = nodes p @ [n] \<and> currDecl p' = Some n \<and> comments p' = CommentGroupExpr [] \<and>
      closed p' = closed p \<and>
      body_of (upcoming (scanner p)) \<noteq> upcoming (scanner p) \<and>
      upcoming (scanner p') = after_body (upcoming (scanner p)) \<and>
      failed (scanner p') = failed (scanner p))"

lemma body_of_simps [simp]:
  "body_of [] = []"
  "T i \<noteq> ItemRightDelim \<Longrightarrow> body_of (i # ts) = i # body_of ts"
  "T i = ItemRightDelim \<Longrightarrow> body_of (i # ts) = []"
  by (simp_all add: body_of_def)

lemma after_body_simps [simp]:
  "T i \<noteq> ItemRightDelim \<Longrightarrow> after_body (i # ts) = after_body ts"
  "T i = ItemRightDelim \<Longrightarrow> after_body (i # ts) = ts"
  by (simp_all add: after_body_def)

lemma vals_simps [simp]:
  "vals k [] = []"
  "T i = k \<Longrightarrow> vals k (i # ts) = Val i # vals k ts"
  "T i \<noteq> k \<Longrightarrow> vals k (i # ts) = vals k ts"
  by (simp_all add: vals_def)

lemma vals_append [simp]: "vals k (xs @ ys) = vals k xs @ vals k ys"
  by (simp add: vals_def)

lemma Scannable_Next_Cons:
  "upcoming sc = i # rest \<Longrightarrow> Scannable_Next sc = (i, sc\<lparr>upcoming := rest\<rparr>)"
  by (simp add: Scannable_Next_def)

lemma Scannable_Next_Nil:
  "upcoming sc = [] \<Longrightarrow> Scannable_Next sc = (Item (if failed sc then ItemErr else ItemEOF) [], sc)"
  by (simp add: Scannable_Next_def)

lemma Parser_checkErr_null [simp]:
  "Parser_checkErr ty = null_p \<longleftrightarrow> ty \<noteq> ItemErr \<and> ty \<noteq> ItemEOF"
  by (simp add: Parser_checkErr_def)

lemma Parser_checkErr_not_null [simp]: "Parser_checkErr ty \<noteq> null_p \<longleftrightarrow> ty = ItemErr \<or> ty = ItemEOF"
  by (simp add: Parser_checkErr_def)

lemma Parser_entry_loop_sends:
  "Parser_entry_loop d stmt p = (null_p, p') \<Longrightarrow>
     \<exists>fs. sent p p' (setComments (withComments p (body_of (upcoming (scanner p))))
                      (foldl (\<lambda>d f. appendField f d) d fs)) \<and>
          set (map Value fs) \<subseteq> set (vals ItemFieldText (body_of (upcoming (scanner p)))) \<and>
          (\<forall>f \<in> set fs. FieldStmt_ok f)"
proof (induction d stmt p rule: Parser_entry_loop.induct)
  case (1 d stmt p)
  show ?case
  proof (cases "upcoming (scanner p)")
    case Nil
    with "1.prems" show ?thesis
      by (simp add: Parser_entry_loop.simps[of d stmt p] Scannable_Next_Nil Parser_checkErr_def
               split: if_splits)
  next
    case (Cons i rest)
    note n = Scannable_Next_Cons[OF Cons]
    let ?q = "p\<lparr>scanner := (scanner p)\<lparr>upcoming := rest\<rparr>\<rparr>"
    from "1.prems" n have ok: "T i \<noteq> ItemErr" "T i \<noteq> ItemEOF"
      by (auto simp: Parser_entry_loop.simps[of d stmt p] Parser_checkErr_def split: if_splits)
    consider (comment) "T i = ItemComment" | (ftype) "T i = ItemFieldType"
      | (ftext) "T i = ItemFieldText" | (rdelim) "T i = ItemRightDelim"
      | (skip) "T i = ItemComma \<or> T i = ItemEqSgn"
      | (other) "T i \<noteq> ItemComment" "T i \<noteq> ItemFieldType" "T i \<noteq> ItemFieldText"
          "T i \<noteq> ItemRightDelim" "T i \<noteq> ItemComma" "T i \<noteq> ItemEqSgn"
      by blast
    then show ?thesis
    proof cases
      case comment
      with "1.prems" n ok
      have r: "Parser_entry_loop d stmt (appendComment (Val i) ?q) = (null_p, p')"
        by (simp add: Parser_entry_loop.simps[of d stmt p])
      from "1.IH"(1)[OF n[symmetric] _ comment r] ok comment Cons show ?thesis
        by (simp add: sent_def appendComment_def withComments_def)
    next
      case ftype
      with "1.prems" n ok
      have r: "Parser_entry_loop d (FieldStmt (Val i) (Value stmt)) ?q = (null_p, p')"
        by (simp add: Parser_entry_loop.simps[of d stmt p])
      from "1.IH"(2)[OF n[symmetric] _ _ ftype r] ok ftype Cons show ?thesis
        by (simp add: sent_def withComments_def)
    next
      case ftext
      with "1.prems" n ok
      have okf: "FieldStmt_ok (FieldStmt (Key stmt) (Val i))"
        and r: "Parser_entry_loop (appendField (FieldStmt (Key stmt) (Val i)) d) (FieldStmt [] []) ?q
                = (null_p, p')"
        by (auto simp: Parser_entry_loop.simps[of d stmt p] split: if_splits)
      from "1.IH"(3)[OF n[symmetric] _ _ _ ftext _ r] ok ftext okf
      obtain fs where fs:
        "sent ?q p' (setComments (withComments ?q (body_of rest))
           (foldl (\<lambda>d f. appendField f d) (appendField (FieldStmt (Key stmt) (Val i)) d) fs))"
        "set (map Value fs) \<subseteq> set (vals ItemFieldText (body_of rest))"
        "\<forall>f \<in> set fs. FieldStmt_ok f"
        by auto
      show ?thesis
        using fs okf ftext Cons
        by (intro exI[of _ "FieldStmt (Key stmt) (Val i) # fs"])
           (auto simp: sent_def withComments_def)
    next
      case rdelim
      with "1.prems" n ok Cons show ?thesis
        by (intro exI[of _ "[]"])
           (auto simp: Parser_entry_loop.simps[of d stmt p] sent_def withComments_def resetComms_def)
    next
      case skip
      with "1.prems" n ok
      have r: "Parser_entry_loop d stmt ?q = (null_p, p')"
        by (auto simp: Parser_entry_loop.simps[of d stmt p])
      have "T i \<noteq> ItemComment" "T i \<noteq> ItemFieldType" "T i \<noteq> ItemFieldText" "T i \<noteq> ItemRightDelim"
        using skip by auto
      from "1.IH"(4)[OF n[symmetric] _ this skip r] ok this Cons show ?thesis
        by (simp add: sent_def withComments_def)
    next
      case other
      with "1.prems" n ok show ?thesis
        by (simp add: Parser_entry_loop.simps[of d stmt p])
    qed
  qed
qed

lemma Parser_preamble_loop_sends:
  "Parser_preamble_loop d p = (null_p, p') \<Longrightarrow>
     \<exists>vs. sent p p' (setComments (withComments p (body_of (upcoming (scanner p))))
                      (foldl (\<lambda>d v. setValue v d) d vs)) \<and>
          set vs \<subseteq> set (vals ItemFieldText (body_of (upcoming (scanner p))))"
proof (induction d p rule: Parser_preamble_loop.induct)
  case (1 d p)
  show ?case
  proof (cases "upcoming (scanner p)")
    case Nil
    with "1.prems" show ?thesis
      by (simp add: Parser_preamble_loop.simps[of d p] Scannable_Next_Nil Parser_checkErr_def
               split: if_splits)
  next
    case (Cons i rest)
    note n = Scannable_Next_Cons[OF Cons]
    let ?q = "p\<lparr>scanner := (scanner p)\<lparr>upcoming := rest\<rparr>\<rparr>"
    from "1.prems" n have ok: "T i \<noteq> ItemErr" "T i \<noteq> ItemEOF"
      by (auto simp: Parser_preamble_loop.simps[of d p] Parser_checkErr_def split: if_splits)
    consider (comment) "T i = ItemComment" | (ftext) "T i = ItemFieldText"
      | (rdelim) "T i = ItemRightDelim"
      | (other) "T i \<noteq> ItemComment" "T i \<noteq> ItemFieldText" "T i \<noteq> ItemRightDelim"
      by blast
    then show ?thesis
    proof cases
      case comment
      with "1.prems" n ok
      have r: "Parser_preamble_loop d (appendComment (Val i) ?q) = (null_p, p')"
        by (simp add: Parser_preamble_loop.simps[of d p])
      from "1.IH"(1)[OF n[symmetric] _ comment r] ok comment Cons show ?thesis
        by (simp add: sent_def appendComment_def withComments_def)
    next
      case ftext
      with "1.prems" n ok
      have r: "Parser_preamble_loop (setValue (Val i) d) ?q = (null_p, p')"
        by (auto simp: Parser_preamble_loop.simps[of d p] split: if_splits)
      from "1.IH"(2)[OF n[symmetric] _ _ ftext r] ok ftext
      obtain vs where vs:
        "sent ?q p' (setComments (withComments ?q (body_of rest))
           (foldl (\<lambda>d v. setValue v d) (setValue (Val i) d) vs))"
        "set vs \<subseteq> set (vals ItemFieldText (body_of rest))"
        by auto
      show ?thesis
        using vs ftext Cons
        by (intro exI[of _ "Val i # vs"]) (auto simp: sent_def withComments_def)
    next
      case rdelim
      with "1.prems" n ok Cons show ?thesis
        by (intro exI[of _ "[]"])
           (auto simp: Parser_preamble_loop.simps[of d p] sent_def withComments_def resetComms_def)
    next
      case other
      with "1.prems" n ok show ?thesis
        by (simp add: Parser_preamble_loop.simps[of d p])
    qed
  qed
qed

lemma Parser_abbrev_loop_sends:
  "Parser_abbrev_loop d linked stmt p = (null_p, p') \<Longrightarrow>
     \<exists>l f. sent p p' (setComments (withComments p (body_of (upcoming (scanner p))))
                       (withField l f d)) \<and>
           (l \<longrightarrow> (linked \<and> Value f = Value stmt) \<or>
                  Value f \<in> set (vals ItemFieldText (body_of (upcoming (scanner p)))))"
proof (induction d linked stmt p rule: Parser_abbrev_loop.induct)
  case (1 d linked stmt p)
  show ?case
  proof (cases "upcoming (scanner p)")
    case Nil
    with "1.prems" show ?thesis
      by (simp add: Parser_abbrev_loop.simps[of d linked stmt p] Scannable_Next_Nil
               Parser_checkErr_def split: if_splits)
  next
    case (Cons i rest)
    note n = Scannable_Next_Cons[OF Cons]
    let ?q = "p\<lparr>scanner := (scanner p)\<lparr>upcoming := rest\<rparr>\<rparr>"
    from "1.prems" n have ok: "T i \<noteq> ItemErr" "T i \<noteq> ItemEOF"
      by (auto simp: Parser_abbrev_loop.simps[of d linked stmt p] Parser_checkErr_def
               split: if_splits)
    consider (comment) "T i = ItemComment" | (ftype) "T i = ItemFieldType"
      | (ftext) "T i = ItemFieldText" | (rdelim) "T i = ItemRightDelim"
      | (skip) "T i = ItemEqSgn"
      | (other) "T i \<noteq> ItemComment" "T i \<noteq> ItemFieldType" "T i \<noteq> ItemFieldText"
          "T i \<noteq> ItemRightDelim" "T i \<noteq> ItemEqSgn"
      by blast
    then show ?thesis
    proof cases
      case comment
      with "1.prems" n ok
      have r: "Parser_abbrev_loop d linked stmt (appendComment (Val i) ?q) = (null_p, p')"
        by (simp add: Parser_abbrev_loop.simps[of d linked stmt p])
      from "1.IH"(1)[OF n[symmetric] _ comment r] ok comment Cons show ?thesis
        by (simp add: sent_def appendComment_def withComments_def)
    next
      case ftype
      with "1.prems" n ok
      have r: "Parser_abbrev_loop d linked (FieldStmt (Val i) (Value stmt)) ?q = (null_p, p')"
        by (simp add: Parser_abbrev_loop.simps[of d linked stmt p])
      from "1.IH"(2)[OF n[symmetric] _ _ ftype r] ok ftype Cons show ?thesis
        by (simp add: sent_def withComments_def)
    next
      case ftext
      with "1.prems" n ok
      have okf: "FieldStmt_ok (FieldStmt (Key stmt) (Val i))"
        and r: "Parser_abbrev_loop d True (FieldStmt (Key stmt) (Val i)) ?q = (null_p, p')"
        by (auto simp: Parser_abbrev_loop.simps[of d linked stmt p] split: if_splits)
      from "1.IH"(3)[OF n[symmetric] _ _ _ ftext _ r] ok ftext okf
      obtain l f where lf:
        "sent ?q p' (setComments (withComments ?q (body_of rest)) (withField l f d))"
        "l \<longrightarrow> Value f = Val i \<or> Value f \<in> set (vals ItemFieldText (body_of rest))"
        by auto
      show ?thesis
        using lf ftext Cons
        by (intro exI[of _ l] exI[of _ f]) (auto simp: sent_def withComments_def)
    next
      case rdelim
      with "1.prems" n ok Cons show ?thesis
        by (intro exI[of _ linked] exI[of _ stmt])
           (auto simp: Parser_abbrev_loop.simps[of d linked stmt p] sent_def withComments_def
              resetComms_def)
    next
      case skip
      with "1.prems" n ok
      have r: "Parser_abbrev_loop d linked stmt ?q = (null_p, p')"
        by (auto simp: Parser_abbrev_loop.simps[of d linked stmt p])
      have "T i \<noteq> ItemComment" "T i \<noteq> ItemFieldType" "T i \<noteq> ItemFieldText" "T i \<noteq> ItemRightDelim"
        using skip by auto
      from "1.IH"(4)[OF n[symmetric] _ this skip r] ok this Cons show ?thesis
        by (simp add: sent_def withComments_def)
    next
      case other
      with "1.prems" n ok show ?thesis
        by (simp add: Parser_abbrev_loop.simps[of d linked stmt p])
    qed
  qed
qed

subsection \<open>The end-of-input item in the parser\<close>







text \<open>
  In the states \<open>eof\<close> and \<open>err\<close> the next turn closes the channel, and \<open>Next\<close> reports that
  there is no further result.
\<close>

lemma Parser_Next_closes:
  assumes "nodes p = []" and "\<not> closed p" and "state_p p = eof_p \<or> state_p p = err_p"
  shows "Parser_Next p = (None, p\<lparr>closed := True\<rparr>)"
proof -
  from assms(3) have s: "Parser_step p = p\<lparr>closed := True\<rparr>"
    by (auto simp: Parser_step_def Parser_eof_def Parser_err_def)
  have "Parser_Next p = Parser_Next (Parser_step p)"
    using assms(1,2) by (simp add: Parser_Next.simps[of p])
  also have "\<dots> = (None, p\<lparr>closed := True\<rparr>)"
    unfolding s using assms(1) by (simp add: Parser_Next.simps[of "p\<lparr>closed := True\<rparr>"])
  finally show ?thesis .
qed







subsection \<open>Field text without outer delimiters\<close>

text \<open>
  C2.  The claim asks that a field value which is not a digit run has matching outer
  delimiters.  \<open>isProperQuoted\<close> only counts braces and quotes and never looks at the first
  and the last character, although its comment says that it checks that the string is
  enclosed in quotation marks or curly brackets.  So the bare word \<open>abc\<close> passes (its
  counters end at zero braces and zero quotes, which is all that is tested), the
  scanner sends it as field text instead of going to the error state, and the parser
  stores it as a field value.
\<close>

theorem bare_word_is_field_text:
  "isProperQuoted_loop 0 0 ''abc'' = (0, 0) \<and> fieldTextOk ''abc'' \<and> \<not> isValidInt ''abc'' \<and>
   Scanner_run (NewScanner (NewReader ''@book{k, title = abc}'' False)) =
     ([Item ItemEntryDelim ''@'', Item ItemEntry ''book'', Item ItemLeftDelim ''{'',
       Item ItemCiteKey ''k'', Item ItemComma '','', Item ItemFieldType ''title'',
       Item ItemEqSgn ''='', Item ItemFieldText ''abc'', Item ItemRightDelim ''}''], False) \<and>
   declarations ''@book{k, title = abc}'' =
     [EntryDecl ''book'' ''k'' (Some (CommentGroupExpr [])) [FieldStmt ''title'' ''abc'']]"
  by code_simp

subsection \<open>The output is a function of the input alone\<close>

lemma Reader_Next_same:
  "pending r1 = pending r2 \<Longrightarrow> fails r1 = fails r2 \<Longrightarrow> Reader_Next r1 = Reader_Next r2"
  by (cases r1; cases r2) (simp add: Reader_Next_def split: list.splits)

lemma topLvlComment_loop_same:
  assumes "pending r1 = pending r2" and "fails r1 = fails r2"
  shows "Scanner_topLvlComment_loop buf (s\<lparr>reader := r1\<rparr>) =
         Scanner_topLvlComment_loop buf (s\<lparr>reader := r2\<rparr>)"
proof -
  obtain c r where n: "Reader_Next r2 = (c, r)"
    by (cases "Reader_Next r2")
  with Reader_Next_same[OF assms] have m: "Reader_Next r1 = (c, r)"
    by simp
  show ?thesis
    by (subst (1 2) Scanner_topLvlComment_loop.simps) (simp add: n m)
qed

lemma NewScanner_Next_same:
  assumes "pending r1 = pending r2" and "fails r1 = fails r2"
  shows "Scanner_Next (NewScanner r1) = Scanner_Next (NewScanner r2)"
proof -
  have one: "Scanner_step (NewScanner r) = (NewScanner r)\<lparr>state := topLvlComment\<rparr>" for r
    by (simp add: Scanner_step_def NewScanner_def Scanner_null_def)
  have two: "Scanner_step ((NewScanner r)\<lparr>state := topLvlComment\<rparr>) =
      (case Scanner_topLvlComment_loop [] ((NewScanner r)\<lparr>state := topLvlComment\<rparr>) of
         (st, s') \<Rightarrow> s'\<lparr>state := st\<rparr>)" for r
    by (simp add: Scanner_step_def Scanner_topLvlComment_def)
  have three: "(NewScanner r)\<lparr>state := topLvlComment\<rparr> =
      ((NewScanner r1)\<lparr>state := topLvlComment\<rparr>)\<lparr>reader := r\<rparr>" for r
    by (simp add: NewScanner_def)
  have "Scanner_step (Scanner_step (NewScanner r1)) = Scanner_step (Scanner_step (NewScanner r2))"
    unfolding one two
    by (subst (1 2) three) (simp only: topLvlComment_loop_same[OF assms])
  moreover have "Scanner_Next (NewScanner r) =
      Scanner_Next (Scanner_step (Scanner_step (NewScanner r)))" for r
  proof -
    have "items (NewScanner r) = []" "items (Scanner_step (NewScanner r)) = []"
      by (simp_all add: one) (simp_all add: NewScanner_def)
    then show ?thesis
      by (simp add: Scanner_Next_Nil)
  qed
  ultimately show ?thesis by simp
qed

text \<open>
  C9.  A run of the pipeline builds a scanner and a parser afresh, and every piece of
  state they use is a field of these two objects.  So the sequence of declarations is a
  function of what the reader delivers alone: two runs over readers that hold the same
  characters and end the same way return the same declarations, call by call, whatever
  else differs between the readers (the memory of the last rune read).
\<close>

theorem pipeline_deterministic:
  assumes "pending r1 = pending r2" and "fails r1 = fails r2"
  shows "Parser_all (NewParser (Scannable_of (NewScanner r1))) =
         Parser_all (NewParser (Scannable_of (NewScanner r2))) \<and>
         Parser_Next (NewParser (Scannable_of (NewScanner r1))) =
         Parser_Next (NewParser (Scannable_of (NewScanner r2)))"
proof -
  have "Scanner_run (NewScanner r1) = Scanner_run (NewScanner r2)"
    by (subst (1 2) Scanner_run.simps) (simp only: NewScanner_Next_same[OF assms])
  then show ?thesis
    by (simp add: Scannable_of_def)
qed

theorem pipeline_deterministic_witness:
  "pending (NewReader ''@a{k,}'' False) =
     pending ((NewReader ''@a{k,}'' False)\<lparr>lastRune := Some (CHR ''x'')\<rparr>) \<and>
   fails (NewReader ''@a{k,}'' False) =
     fails ((NewReader ''@a{k,}'' False)\<lparr>lastRune := Some (CHR ''x'')\<rparr>) \<and>
   Parser_all (NewParser (Scannable_of (NewScanner
     ((NewReader ''@a{k,}'' False)\<lparr>lastRune := Some (CHR ''x'')\<rparr>)))) =
     [EntryDecl ''a'' ''k'' (Some (CommentGroupExpr [])) []]"
proof -
  let ?r1 = "NewReader ''@a{k,}'' False"
  let ?r2 = "(NewReader ''@a{k,}'' False)\<lparr>lastRune := Some (CHR ''x'')\<rparr>"
  have h: "pending ?r1 = pending ?r2" "fails ?r1 = fails ?r2"
    by simp_all
  have e: "Parser_all (NewParser (Scannable_of (NewScanner ?r1))) =
      [EntryDecl ''a'' ''k'' (Some (CommentGroupExpr [])) []]"
    by code_simp
  from pipeline_deterministic[OF h] e h show ?thesis
    by simp
qed

subsection \<open>One call of the parser's Next\<close>

lemma foldl_appendField:
  "foldl (\<lambda>d f. appendField f d) (EntryDecl n k c fs) gs = EntryDecl n k c (fs @ gs)"
  by (induction gs arbitrary: fs) auto

lemma foldl_setValue:
  "\<exists>w. foldl (\<lambda>d v. setValue v d) (PreambleDecl c v) vs = PreambleDecl c w \<and>
       (w = v \<or> w \<in> set vs)"
proof (induction vs arbitrary: v)
  case Nil
  show ?case by simp
next
  case (Cons a vs)
  from Cons[of a] obtain w where
    "foldl (\<lambda>d v. setValue v d) (PreambleDecl c a) vs = PreambleDecl c w" "w = a \<or> w \<in> set vs"
    by blast
  then show ?case
    by (intro exI[of _ w]) auto
qed

text \<open>What \<open>comms\<close> and \<open>decl\<close> take from the token source when they go on.\<close>

lemma Parser_comms_takes:
  "Parser_comms p = (decl, p') \<Longrightarrow>
     \<exists>cs ed rest. upcoming (scanner p) = cs @ ed # rest \<and> (\<forall>c \<in> set cs. T c = ItemComment) \<and>
       T ed = ItemEntryDelim \<and> upcoming (scanner p') = rest \<and>
       failed (scanner p') = failed (scanner p) \<and>
       comments p' = CommentGroupExpr (Values (comments p) @ map CommentExpr (map Val cs)) \<and>
       nodes p' = nodes p \<and> closed p' = closed p"
proof (induction p rule: Parser_comms.induct)
  case (1 p)
  show ?case
  proof (cases "upcoming (scanner p)")
    case Nil
    with "1.prems" show ?thesis
      by (simp add: Parser_comms.simps[of p] Scannable_Next_Nil Parser_checkErr_def
               split: if_splits)
  next
    case (Cons i rest)
    note n = Scannable_Next_Cons[OF Cons]
    let ?q = "p\<lparr>scanner := (scanner p)\<lparr>upcoming := rest\<rparr>\<rparr>"
    from "1.prems" n have ok: "T i \<noteq> ItemErr" "T i \<noteq> ItemEOF"
      by (auto simp: Parser_comms.simps[of p] Parser_checkErr_def split: if_splits)
    consider (comment) "T i = ItemComment" | (ed) "T i = ItemEntryDelim"
      | (other) "T i \<noteq> ItemComment" "T i \<noteq> ItemEntryDelim"
      by blast
    then show ?thesis
    proof cases
      case comment
      with "1.prems" n ok
      have r: "Parser_comms (appendComment (Val i) ?q) = (decl, p')"
        by (simp add: Parser_comms.simps[of p])
      from "1.IH"[OF n[symmetric] _ comment r] ok
      obtain cs ed rest' where h: "rest = cs @ ed # rest'" "\<forall>c \<in> set cs. T c = ItemComment"
        "T ed = ItemEntryDelim" "upcoming (scanner p') = rest'"
        "failed (scanner p') = failed (scanner p)"
        "comments p' = CommentGroupExpr (Values (comments p) @ CommentExpr (Val i) #
           map CommentExpr (map Val cs))"
        "nodes p' = nodes p" "closed p' = closed p"
        by (auto simp: appendComment_def)
      show ?thesis
        using h comment Cons
        by (intro exI[of _ "i # cs"] exI[of _ ed] exI[of _ rest']) simp
    next
      case ed
      with "1.prems" n ok Cons show ?thesis
        by (intro exI[of _ "[]"] exI[of _ i] exI[of _ rest])
           (auto simp: Parser_comms.simps[of p])
    next
      case other
      with "1.prems" n ok show ?thesis
        by (simp add: Parser_comms.simps[of p])
    qed
  qed
qed

lemma Parser_decl_takes:
  assumes "Parser_decl p = (st, p')" and "st \<noteq> err_p" and "st \<noteq> eof_p"
  shows "\<exists>kw rest. upcoming (scanner p) = kw # rest \<and> upcoming (scanner p') = rest \<and>
       failed (scanner p') = failed (scanner p) \<and> comments p' = comments p \<and>
       nodes p' = nodes p \<and> closed p' = closed p \<and>
       ((T kw = ItemEntry \<and> st = entry_p \<and>
           currDecl p' = Some (EntryDecl (strings_ToLower (Val kw)) [] None [])) \<or>
        (T kw = ItemAbbrev \<and> st = abbrev_p \<and> currDecl p' = Some (AbbrevDecl None None)) \<or>
        (T kw = ItemPreamble \<and> st = preamble_p \<and> currDecl p' = Some (PreambleDecl None [])))"
proof (cases "upcoming (scanner p)")
  case Nil
  with assms show ?thesis
    by (auto simp: Parser_decl_def Scannable_Next_Nil Parser_checkErr_def split: if_splits)
next
  case (Cons i rest)
  with assms show ?thesis
    by (auto simp: Parser_decl_def Scannable_Next_Cons Parser_checkErr_def split: if_splits)
qed

text \<open>What the three body handlers send.\<close>

lemma Parser_entry_sends:
  assumes "Parser_entry p = (null_p, p')"
  shows "\<exists>n k c fs dl ck rest gs.
       currDecl p = Some (EntryDecl n k c fs) \<and> upcoming (scanner p) = dl # ck # rest \<and>
       T dl \<noteq> ItemErr \<and> T dl \<noteq> ItemEOF \<and> T ck = ItemCiteKey \<and>
       sent (p\<lparr>scanner := (scanner p)\<lparr>upcoming := rest\<rparr>\<rparr>) p'
         (EntryDecl n (Val ck) (Some (withComments p (body_of rest))) (fs @ gs)) \<and>
       set (map Value gs) \<subseteq> set (vals ItemFieldText (body_of rest)) \<and>
       (\<forall>f \<in> set gs. FieldStmt_ok f)"
proof -
  from assms obtain n k c fs where cd: "currDecl p = Some (EntryDecl n k c fs)"
    by (auto simp: Parser_entry_def split: option.splits Node.splits)
  from assms cd obtain dl r1 where u1: "upcoming (scanner p) = dl # r1"
    by (cases "upcoming (scanner p)")
       (auto simp: Parser_entry_def Scannable_Next_Nil Parser_checkErr_def split: if_splits)
  from assms cd u1 have t1: "T dl \<noteq> ItemErr" "T dl \<noteq> ItemEOF"
    by (auto simp: Parser_entry_def Scannable_Next_Cons Parser_checkErr_def split: if_splits)
  from assms cd u1 t1 obtain ck rest where u2: "r1 = ck # rest"
    by (cases r1)
       (auto simp: Parser_entry_def Scannable_Next_Cons Scannable_Next_Nil Parser_checkErr_def
             split: if_splits)
  let ?q = "p\<lparr>scanner := (scanner p)\<lparr>upcoming := rest\<rparr>\<rparr>"
  from assms cd u1 u2 t1 have t2: "T ck = ItemCiteKey"
    and r: "Parser_entry_loop (EntryDecl n (Val ck) c fs) (FieldStmt [] []) ?q = (null_p, p')"
    by (auto simp: Parser_entry_def Scannable_Next_Cons Parser_checkErr_def split: if_splits)
  from Parser_entry_loop_sends[OF r] obtain gs where
    g: "sent ?q p' (setComments (withComments ?q (body_of rest))
          (foldl (\<lambda>d f. appendField f d) (EntryDecl n (Val ck) c fs) gs))"
      "set (map Value gs) \<subseteq> set (vals ItemFieldText (body_of rest))"
      "\<forall>f \<in> set gs. FieldStmt_ok f"
    by auto
  have w: "withComments ?q (body_of rest) = withComments p (body_of rest)"
    by (simp add: withComments_def)
  from g cd u1 u2 t1 t2 show ?thesis
    by (intro exI[of _ n] exI[of _ k] exI[of _ c] exI[of _ fs] exI[of _ dl] exI[of _ ck]
          exI[of _ rest] exI[of _ gs])
       (simp add: foldl_appendField w)
qed

lemma Parser_preamble_sends:
  assumes "Parser_preamble p = (null_p, p')"
  shows "\<exists>c v dl rest w.
       currDecl p = Some (PreambleDecl c v) \<and> upcoming (scanner p) = dl # rest \<and>
       T dl \<noteq> ItemErr \<and> T dl \<noteq> ItemEOF \<and>
       sent (p\<lparr>scanner := (scanner p)\<lparr>upcoming := rest\<rparr>\<rparr>) p'
         (PreambleDecl (Some (withComments p (body_of rest))) w) \<and>
       (w = v \<or> w \<in> set (vals ItemFieldText (body_of rest)))"
proof -
  from assms obtain c v where cd: "currDecl p = Some (PreambleDecl c v)"
    by (auto simp: Parser_preamble_def split: option.splits Node.splits)
  from assms cd obtain dl rest where u1: "upcoming (scanner p) = dl # rest"
    by (cases "upcoming (scanner p)")
       (auto simp: Parser_preamble_def Scannable_Next_Nil Parser_checkErr_def split: if_splits)
  let ?q = "p\<lparr>scanner := (scanner p)\<lparr>upcoming := rest\<rparr>\<rparr>"
  from assms cd u1 have t1: "T dl \<noteq> ItemErr" "T dl \<noteq> ItemEOF"
    and r: "Parser_preamble_loop (PreambleDecl c v) ?q = (null_p, p')"
    by (auto simp: Parser_preamble_def Scannable_Next_Cons Parser_checkErr_def split: if_splits)
  from Parser_preamble_loop_sends[OF r] obtain vs where
    g: "sent ?q p' (setComments (withComments ?q (body_of rest))
          (foldl (\<lambda>d v. setValue v d) (PreambleDecl c v) vs))"
      "set vs \<subseteq> set (vals ItemFieldText (body_of rest))"
    by auto
  from foldl_setValue[of c v vs] obtain w where
    w: "foldl (\<lambda>d v. setValue v d) (PreambleDecl c v) vs = PreambleDecl c w" "w = v \<or> w \<in> set vs"
    by blast
  have wc: "withComments ?q (body_of rest) = withComments p (body_of rest)"
    by (simp add: withComments_def)
  from g w cd u1 t1 show ?thesis
    by (intro exI[of _ c] exI[of _ v] exI[of _ dl] exI[of _ rest] exI[of _ w])
       (auto simp: wc)
qed

lemma Parser_abbrev_sends:
  assumes "Parser_abbrev p = (null_p, p')"
  shows "\<exists>c f dl rest g.
       currDecl p = Some (AbbrevDecl c f) \<and> upcoming (scanner p) = dl # rest \<and>
       T dl \<noteq> ItemErr \<and> T dl \<noteq> ItemEOF \<and>
       sent (p\<lparr>scanner := (scanner p)\<lparr>upcoming := rest\<rparr>\<rparr>) p'
         (AbbrevDecl (Some (withComments p (body_of rest))) g) \<and>
       (g = f \<or> (\<exists>h. g = Some h \<and> Value h \<in> set (vals ItemFieldText (body_of rest))))"
proof -
  from assms obtain c f where cd: "currDecl p = Some (AbbrevDecl c f)"
    by (auto simp: Parser_abbrev_def split: option.splits Node.splits)
  from assms cd obtain dl rest where u1: "upcoming (scanner p) = dl # rest"
    by (cases "upcoming (scanner p)")
       (auto simp: Parser_abbrev_def Scannable_Next_Nil Parser_checkErr_def split: if_splits)
  let ?q = "p\<lparr>scanner := (scanner p)\<lparr>upcoming := rest\<rparr>\<rparr>"
  from assms cd u1 have t1: "T dl \<noteq> ItemErr" "T dl \<noteq> ItemEOF"
    and r: "Parser_abbrev_loop (AbbrevDecl c f) False (FieldStmt [] []) ?q = (null_p, p')"
    by (auto simp: Parser_abbrev_def Scannable_Next_Cons Parser_checkErr_def split: if_splits)
  from Parser_abbrev_loop_sends[OF r] obtain l h where
    g: "sent ?q p' (setComments (withComments ?q (body_of rest)) (withField l h (AbbrevDecl c f)))"
      "l \<longrightarrow> Value h \<in> set (vals ItemFieldText (body_of rest))"
    by auto
  have wc: "withComments ?q (body_of rest) = withComments p (body_of rest)"
    by (simp add: withComments_def)
  from g cd u1 t1 show ?thesis
    by (intro exI[of _ c] exI[of _ f] exI[of _ dl] exI[of _ rest]
          exI[of _ "if l then Some h else f"])
       (auto simp: wc withField_def)
qed

lemma Parser_Next_Cons: "nodes p = n # rest \<Longrightarrow> Parser_Next p = (Some n, p\<lparr>nodes := rest\<rparr>)"
  by (simp add: Parser_Next.simps[of p])

lemma Parser_Next_Nil:
  "nodes p = [] \<Longrightarrow> \<not> closed p \<Longrightarrow> Parser_Next p = Parser_Next (Parser_step p)"
  by (simp add: Parser_Next.simps[of p])

text \<open>
  \<open>round_node c0 cs kw body d\<close>: \<open>d\<close> is the declaration built from the comments \<open>c0\<close>
  pending before the call, the comment items \<open>cs\<close> before the entry delimiter, the keyword
  item \<open>kw\<close> and the items \<open>body\<close> after the body delimiter.
\<close>

definition round_node :: "CommentExpr list \<Rightarrow> Item list \<Rightarrow> Item \<Rightarrow> Item list \<Rightarrow> Node \<Rightarrow> bool" where
  "round_node c0 cs kw body d =
     (let G = Some (CommentGroupExpr
                (c0 @ map CommentExpr (map Val cs @ vals ItemComment (body_of body))));
          fv = set (vals ItemFieldText (body_of body))
      in (T kw = ItemEntry \<and> body \<noteq> [] \<and> T (hd body) = ItemCiteKey \<and>
            (\<exists>fs. d = EntryDecl (strings_ToLower (Val kw)) (Val (hd body)) G fs \<and>
                  set (map Value fs) \<subseteq> fv \<and> (\<forall>f \<in> set fs. FieldStmt_ok f))) \<or>
         (T kw = ItemAbbrev \<and> (\<exists>g. d = AbbrevDecl G g \<and> (\<forall>h. g = Some h \<longrightarrow> Value h \<in> fv))) \<or>
         (T kw = ItemPreamble \<and> (\<exists>w. d = PreambleDecl G w \<and> (w = [] \<or> w \<in> fv))))"

lemma Parser_Next_round:
  assumes nx: "Parser_Next p = (Some d, p')"
    and q: "nodes p = []" "\<not> closed p" "state_p p = null_p"
  shows "\<exists>cs ed kw dl body.
      upcoming (scanner p) = cs @ ed # kw # dl # body \<and> (\<forall>c \<in> set cs. T c = ItemComment) \<and>
      T ed = ItemEntryDelim \<and> T dl \<noteq> ItemErr \<and> T dl \<noteq> ItemEOF \<and> body_of body \<noteq> body \<and>
      upcoming (scanner p') = after_body body \<and> failed (scanner p') = failed (scanner p) \<and>
      nodes p' = [] \<and> \<not> closed p' \<and> state_p p' = null_p \<and> comments p' = CommentGroupExpr [] \<and>
      round_node (Values (comments p)) cs kw body d"
proof -
  \<comment> \<open>first turn: null\<close>
  let ?p1 = "p\<lparr>state_p := comms\<rparr>"
  have s0: "Parser_step p = ?p1"
    using q(3) by (simp add: Parser_step_def Parser_null_def)
  from nx q have nx1: "Parser_Next ?p1 = (Some d, p')"
    by (simp add: Parser_Next_Nil s0)
  \<comment> \<open>second turn: comms\<close>
  obtain st1 q1 where c: "Parser_comms ?p1 = (st1, q1)"
    by (cases "Parser_comms ?p1")
  let ?p2 = "q1\<lparr>state_p := st1\<rparr>"
  have s1: "Parser_step ?p1 = ?p2"
    by (simp add: Parser_step_def c)
  from Parser_comms_progress[OF c] q
  have q1: "nodes q1 = []" "\<not> closed q1" "st1 = decl \<or> st1 = err_p \<or> st1 = eof_p"
    by (simp_all add: quiet_p_def)
  from nx1 q have nx2: "Parser_Next ?p2 = (Some d, p')"
    by (simp add: Parser_Next_Nil s1)
  have st1: "st1 = decl"
  proof (rule ccontr)
    assume "st1 \<noteq> decl"
    with q1 have "state_p ?p2 = eof_p \<or> state_p ?p2 = err_p" by auto
    from Parser_Next_closes[OF _ _ this] q1 nx2 show False by simp
  qed
  from Parser_comms_takes[OF c[unfolded st1]]
  obtain cs ed r1 where t1: "upcoming (scanner p) = cs @ ed # r1" "\<forall>c \<in> set cs. T c = ItemComment"
    "T ed = ItemEntryDelim" "upcoming (scanner q1) = r1" "failed (scanner q1) = failed (scanner p)"
    "comments q1 = CommentGroupExpr (Values (comments p) @ map CommentExpr (map Val cs))"
    by auto
  \<comment> \<open>third turn: decl\<close>
  obtain st2 q2 where dc: "Parser_decl ?p2 = (st2, q2)"
    by (cases "Parser_decl ?p2")
  let ?p3 = "q2\<lparr>state_p := st2\<rparr>"
  have s2: "Parser_step ?p2 = ?p3"
    using dc by (simp add: Parser_step_def st1)
  from Parser_decl_progress[OF dc] q1
  have q2: "nodes q2 = []" "\<not> closed q2"
    by (simp_all add: quiet_p_def)
  from nx2 q1 have nx3: "Parser_Next ?p3 = (Some d, p')"
    by (simp add: Parser_Next_Nil s2)
  have st2: "st2 \<noteq> err_p" "st2 \<noteq> eof_p"
  proof -
    have "\<not> (st2 = eof_p \<or> st2 = err_p)"
    proof
      assume "st2 = eof_p \<or> st2 = err_p"
      then have "state_p ?p3 = eof_p \<or> state_p ?p3 = err_p" by simp
      from Parser_Next_closes[OF _ _ this] q2 nx3 show False by simp
    qed
    then show "st2 \<noteq> err_p" "st2 \<noteq> eof_p" by auto
  qed
  from Parser_decl_takes[OF dc st2]
  obtain kw r2 where t2: "r1 = kw # r2" "upcoming (scanner q2) = r2"
    "failed (scanner q2) = failed (scanner p)" "comments q2 = comments q1"
    and kinds: "(T kw = ItemEntry \<and> st2 = entry_p \<and>
           currDecl q2 = Some (EntryDecl (strings_ToLower (Val kw)) [] None [])) \<or>
        (T kw = ItemAbbrev \<and> st2 = abbrev_p \<and> currDecl q2 = Some (AbbrevDecl None None)) \<or>
        (T kw = ItemPreamble \<and> st2 = preamble_p \<and> currDecl q2 = Some (PreambleDecl None []))"
    using t1 by auto
  \<comment> \<open>fourth turn: the body\<close>
  obtain st3 q3 where b: "states_p st2 ?p3 = (st3, q3)"
    by (cases "states_p st2 ?p3")
  let ?p4 = "q3\<lparr>state_p := st3\<rparr>"
  have s3: "Parser_step ?p3 = ?p4"
    by (simp add: Parser_step_def b)
  from nx3 q2 have nx4: "Parser_Next ?p4 = (Some d, p')"
    by (simp add: Parser_Next_Nil s3)
  from kinds b Parser_entry_progress[of ?p3 st3 q3] Parser_abbrev_progress[of ?p3 st3 q3]
    Parser_preamble_progress[of ?p3 st3 q3]
  have bp: "body_p ?p3 (st3, q3)"
    by auto
  have st3: "st3 = null_p"
  proof (rule ccontr)
    assume "st3 \<noteq> null_p"
    with bp q2 have "nodes ?p4 = []" "\<not> closed ?p4" "state_p ?p4 = eof_p \<or> state_p ?p4 = err_p"
      by (auto simp: body_p_def)
    from Parser_Next_closes[OF this] nx4 show False by simp
  qed
  have c0: "Values (comments ?p3) = Values (comments p) @ map CommentExpr (map Val cs)"
    using t1 t2 by simp
  have res: "\<exists>dl body. r2 = dl # body \<and> T dl \<noteq> ItemErr \<and> T dl \<noteq> ItemEOF \<and>
      body_of body \<noteq> body \<and> upcoming (scanner q3) = after_body body \<and>
      failed (scanner q3) = failed (scanner p) \<and> nodes q3 = [d] \<and> closed q3 = closed q2 \<and>
      comments q3 = CommentGroupExpr [] \<and> round_node (Values (comments p)) cs kw body d"
  proof -
    have pop: "nodes q3 = [n] \<Longrightarrow> n = d" for n
      using Parser_Next_Cons[of ?p4 n "[]"] nx4 by simp
    from kinds consider (entry) "T kw = ItemEntry" "st2 = entry_p"
        "currDecl q2 = Some (EntryDecl (strings_ToLower (Val kw)) [] None [])"
      | (abbrev) "T kw = ItemAbbrev" "st2 = abbrev_p" "currDecl q2 = Some (AbbrevDecl None None)"
      | (preamble) "T kw = ItemPreamble" "st2 = preamble_p"
        "currDecl q2 = Some (PreambleDecl None [])"
      by blast
    then show ?thesis
    proof cases
      case entry
      with b st3 have "Parser_entry ?p3 = (null_p, q3)" by simp
      from Parser_entry_sends[OF this] entry t2
      obtain dl ck rest gs where h: "r2 = dl # ck # rest" "T dl \<noteq> ItemErr" "T dl \<noteq> ItemEOF"
        "T ck = ItemCiteKey"
        "sent (?p3\<lparr>scanner := (scanner ?p3)\<lparr>upcoming := rest\<rparr>\<rparr>) q3
           (EntryDecl (strings_ToLower (Val kw)) (Val ck)
              (Some (withComments ?p3 (body_of rest))) gs)"
        "set (map Value gs) \<subseteq> set (vals ItemFieldText (body_of rest))"
        "\<forall>f \<in> set gs. FieldStmt_ok f"
        by auto
      from h(5) q2 t2 have s: "nodes q3 = [EntryDecl (strings_ToLower (Val kw)) (Val ck)
              (Some (withComments ?p3 (body_of rest))) gs]"
        "comments q3 = CommentGroupExpr []" "closed q3 = closed q2"
        "body_of rest \<noteq> rest" "upcoming (scanner q3) = after_body rest"
        "failed (scanner q3) = failed (scanner p)"
        by (simp_all add: sent_def)
      from pop[OF s(1)] have d: "d = EntryDecl (strings_ToLower (Val kw)) (Val ck)
              (Some (withComments ?p3 (body_of rest))) gs"
        by simp
      have "round_node (Values (comments p)) cs kw (ck # rest) d"
        using entry(1) h(4,6,7) d c0
        by (simp add: round_node_def withComments_def)
      with h s d show ?thesis
        by (intro exI[of _ dl] exI[of _ "ck # rest"]) simp
    next
      case abbrev
      with b st3 have "Parser_abbrev ?p3 = (null_p, q3)" by simp
      from Parser_abbrev_sends[OF this] abbrev t2
      obtain dl rest g where h: "r2 = dl # rest" "T dl \<noteq> ItemErr" "T dl \<noteq> ItemEOF"
        "sent (?p3\<lparr>scanner := (scanner ?p3)\<lparr>upcoming := rest\<rparr>\<rparr>) q3
           (AbbrevDecl (Some (withComments ?p3 (body_of rest))) g)"
        "g = None \<or> (\<exists>h. g = Some h \<and> Value h \<in> set (vals ItemFieldText (body_of rest)))"
        by auto
      from h(4) q2 t2 have s: "nodes q3 = [AbbrevDecl (Some (withComments ?p3 (body_of rest))) g]"
        "comments q3 = CommentGroupExpr []" "closed q3 = closed q2"
        "body_of rest \<noteq> rest" "upcoming (scanner q3) = after_body rest"
        "failed (scanner q3) = failed (scanner p)"
        by (simp_all add: sent_def)
      from pop[OF s(1)] have d: "d = AbbrevDecl (Some (withComments ?p3 (body_of rest))) g"
        by simp
      have "round_node (Values (comments p)) cs kw rest d"
        using abbrev(1) h(5) d c0
        by (auto simp: round_node_def withComments_def)
      with h s d show ?thesis
        by (intro exI[of _ dl] exI[of _ rest]) simp
    next
      case preamble
      with b st3 have "Parser_preamble ?p3 = (null_p, q3)" by simp
      from Parser_preamble_sends[OF this] preamble t2
      obtain dl rest w where h: "r2 = dl # rest" "T dl \<noteq> ItemErr" "T dl \<noteq> ItemEOF"
        "sent (?p3\<lparr>scanner := (scanner ?p3)\<lparr>upcoming := rest\<rparr>\<rparr>) q3
           (PreambleDecl (Some (withComments ?p3 (body_of rest))) w)"
        "w = [] \<or> w \<in> set (vals ItemFieldText (body_of rest))"
        by auto
      from h(4) q2 t2 have s: "nodes q3 = [PreambleDecl (Some (withComments ?p3 (body_of rest))) w]"
        "comments q3 = CommentGroupExpr []" "closed q3 = closed q2"
        "body_of rest \<noteq> rest" "upcoming (scanner q3) = after_body rest"
        "failed (scanner q3) = failed (scanner p)"
        by (simp_all add: sent_def)
      from pop[OF s(1)] have d: "d = PreambleDecl (Some (withComments ?p3 (body_of rest))) w"
        by simp
      have "round_node (Values (comments p)) cs kw rest d"
        using preamble(1) h(5) d c0
        by (auto simp: round_node_def withComments_def)
      with h s d show ?thesis
        by (intro exI[of _ dl] exI[of _ rest]) simp
    qed
  qed
  then obtain dl body where r: "r2 = dl # body" "T dl \<noteq> ItemErr" "T dl \<noteq> ItemEOF"
      "body_of body \<noteq> body" "upcoming (scanner q3) = after_body body"
      "failed (scanner q3) = failed (scanner p)" "nodes q3 = [d]" "closed q3 = closed q2"
      "comments q3 = CommentGroupExpr []" "round_node (Values (comments p)) cs kw body d"
    by blast
  from Parser_Next_Cons[of ?p4 d "[]"] r nx4 have p': "p' = ?p4\<lparr>nodes := []\<rparr>"
    by simp
  show ?thesis
    using t1 t2 r q2 st3
    by (intro exI[of _ cs] exI[of _ ed] exI[of _ kw] exI[of _ dl] exI[of _ body])
       (simp add: p')
qed

end
